theory Spec2Isabelle
  imports Main "HOL-Library.Sublist"
begin

section \<open>Strings and values\<close>

text \<open>
  A Python \<open>str\<close> is a sequence of Unicode code points; it is modelled as a list of
  natural numbers. Program literals that are pure ASCII are written through \<open>ascii\<close>;
  the Chinese literals of the source are written as their code points.
\<close>

type_synonym str = "nat list"

definition ascii :: "string \<Rightarrow> str" where
  "ascii s = map of_char s"

text \<open>The values stored in the result dictionaries of the classifier.\<close>

datatype pyval = VStr str | VInt int | VList "str list"

type_synonym pydict = "string \<rightharpoonup> pyval"

text \<open>\<open>d.get(key, default)\<close>\<close>

definition dict_get :: "pydict \<Rightarrow> string \<Rightarrow> pyval \<Rightarrow> pyval" where
  "dict_get d k dflt = (case d k of None \<Rightarrow> dflt | Some v \<Rightarrow> v)"

section \<open>The HTTP collaborator\<close>

text \<open>
  \<open>requests.get(check_url, timeout=timeout, allow_redirects=False)\<close> either returns a
  response or raises. \<open>RequestException\<close> is the class the classifier catches; any other
  exception leaves the classifier and is caught by the worker's catch-all. The header
  dictionary is modelled by its lookup function.
\<close>

record response =
  status_code :: int
  headers :: "str \<rightharpoonup> str"
  resp_text :: str

datatype http_outcome =
    Response response
  | RequestException str
  | OtherException str

text \<open>
  The library functions the classifier calls are parameters of the model:
  \<open>urllib.parse.quote_plus\<close> and \<open>requests.get\<close> (as a function of the requested URL and
  the timeout). \<open>quote_plus\<close> encodes the string as UTF-8 first and raises
  \<open>UnicodeEncodeError\<close> on a string that has no encoding (one with a lone surrogate):
  \<open>Inl\<close> the message of the exception, \<open>Inr\<close> the encoded string.
\<close>

record env =
  quote_plus :: "str \<Rightarrow> str + str"
  requests_get :: "str \<Rightarrow> int \<Rightarrow> http_outcome"

text \<open>
  Everything the program does to the outside: the outbound request of the classifier and
  the four Qt signals of \<open>WorkerManager\<close>.
\<close>

datatype effect =
    HttpGet str int
  | LogMessage str
  | ResultReady str pyval
  | StatsUpdate int int int int
  | Finished

section \<open>The classifier (douyin\_check.py)\<close>

definition DOUYIN_CHECK_URL_TEMPLATE :: "str \<Rightarrow> str" where
  "DOUYIN_CHECK_URL_TEMPLATE target =
     ascii ''https://link.wtturl.cn/?aid=1128&lang=zh&scene=im&jumper_version=1&target='' @ target"

definition WEIBO_CHECK_URL_TEMPLATE :: "str \<Rightarrow> str" where
  "WEIBO_CHECK_URL_TEMPLATE target = ascii ''https://weibo.cn/sinaurl?u='' @ target"

definition DOUYIN_BLOCK_KEYWORDS :: "str list" where
  "DOUYIN_BLOCK_KEYWORDS =
     [[0x7B2C, 0x4E09, 0x65B9, 0x7F51, 0x9875],
      [0x505C, 0x6B62],
      [0x5DF2, 0x7EC8, 0x6B62, 0x8BBF, 0x95EE, 0x8BE5, 0x7F51, 0x9875]]"

definition weibo_block_keywords :: "str list" where
  "weibo_block_keywords =
     [[0x5C06, 0x8981, 0x8BBF, 0x95EE],
      [0x5DF2, 0x505C, 0x6B62, 0x8BBF, 0x95EE]]"

text \<open>
  The classifier returns the list of its outbound requests together with its result:
  \<open>Inr\<close> the result dictionary, \<open>Inl\<close> the message of an exception that escapes. The
  call of \<open>quote_plus\<close> stands before the \<open>try\<close>, so its exception escapes and no request
  is made. \<open>kw in text\<close> on strings is \<open>sublist kw text\<close>.
\<close>

definition check_douyin_jump :: "env \<Rightarrow> str \<Rightarrow> int \<Rightarrow> effect list \<times> (str + pydict)" where
  "check_douyin_jump e target_url timeout =
     (case quote_plus e target_url of
        Inl exc \<Rightarrow> ([], Inl exc)
      | Inr encoded_target \<Rightarrow>
          let check_url = DOUYIN_CHECK_URL_TEMPLATE encoded_target
      in ([HttpGet check_url timeout],
          (case requests_get e check_url timeout of
             RequestException exc \<Rightarrow>
               Inr [''status'' \<mapsto> VStr (ascii ''error''), ''error'' \<mapsto> VStr exc]
           | OtherException exc \<Rightarrow> Inl exc
           | Response resp \<Rightarrow>
               (let status_code = status_code resp in
                if 300 \<le> status_code \<and> status_code < 400
                   \<and> headers resp (ascii ''Location'') \<noteq> None
                then
                  (case headers resp (ascii ''Location'') of
                     Some loc \<Rightarrow>
                       Inr [''status'' \<mapsto> VStr (ascii ''ok''),
                            ''redirect_to'' \<mapsto> VStr loc,
                            ''http_status'' \<mapsto> VInt status_code]
                   | None \<Rightarrow> Inl (ascii ''KeyError''))
                else
                  (let text = (if resp_text resp \<noteq> [] then resp_text resp else []);
                       hit_keywords = filter (\<lambda>kw. sublist kw text) DOUYIN_BLOCK_KEYWORDS
                   in if hit_keywords \<noteq> []
                      then Inr [''status'' \<mapsto> VStr (ascii ''blocked''),
                                ''keywords'' \<mapsto> VList hit_keywords,
                                ''http_status'' \<mapsto> VInt status_code]
                      else Inr [''status'' \<mapsto> VStr (ascii ''unknown''),
                                ''http_status'' \<mapsto> VInt status_code])))))"

definition check_weibo_jump :: "env \<Rightarrow> str \<Rightarrow> int \<Rightarrow> effect list \<times> (str + pydict)" where
  "check_weibo_jump e target_url timeout =
     (case quote_plus e target_url of
        Inl exc \<Rightarrow> ([], Inl exc)
      | Inr encoded_target \<Rightarrow>
          let check_url = WEIBO_CHECK_URL_TEMPLATE encoded_target
      in ([HttpGet check_url timeout],
          (case requests_get e check_url timeout of
             RequestException exc \<Rightarrow>
               Inr [''status'' \<mapsto> VStr (ascii ''error''), ''error'' \<mapsto> VStr exc]
           | OtherException exc \<Rightarrow> Inl exc
           | Response resp \<Rightarrow>
               (let status_code = status_code resp in
                if 300 \<le> status_code \<and> status_code < 400
                   \<and> headers resp (ascii ''Location'') \<noteq> None
                then
                  (case headers resp (ascii ''Location'') of
                     Some loc \<Rightarrow>
                       Inr [''status'' \<mapsto> VStr (ascii ''ok''),
                            ''redirect_to'' \<mapsto> VStr loc,
                            ''http_status'' \<mapsto> VInt status_code]
                   | None \<Rightarrow> Inl (ascii ''KeyError''))
                else
                  (let text = (if resp_text resp \<noteq> [] then resp_text resp else []);
                       hit_keywords = filter (\<lambda>kw. sublist kw text) weibo_block_keywords
                   in if hit_keywords \<noteq> []
                      then Inr [''status'' \<mapsto> VStr (ascii ''blocked''),
                                ''keywords'' \<mapsto> VList hit_keywords,
                                ''http_status'' \<mapsto> VInt status_code]
                      else Inr [''status'' \<mapsto> VStr (ascii ''unknown''),
                                ''http_status'' \<mapsto> VInt status_code])))))"

text \<open>
  Reading a key of the classifier's result: \<open>None\<close> when the key is absent, or when the
  classifier raised instead of returning a dictionary.
\<close>

definition result_field :: "str + pydict \<Rightarrow> string \<Rightarrow> pyval option" where
  "result_field r k = (case r of Inl exc \<Rightarrow> None | Inr d \<Rightarrow> d k)"

text \<open>
  The decision table of the classifier, for a classifier function \<open>check\<close> with its URL
  template and keyword list. When \<open>quote_plus\<close> raises, no request is made and the
  exception is the outcome of the call. Otherwise one request is made, and the four rows
  apply in order, each under the negation of the rows above it.
\<close>

definition decision_table ::
  "(env \<Rightarrow> str \<Rightarrow> int \<Rightarrow> effect list \<times> (str + pydict)) \<Rightarrow> (str \<Rightarrow> str) \<Rightarrow> str list
     \<Rightarrow> env \<Rightarrow> str \<Rightarrow> int \<Rightarrow> bool" where
  "decision_table check template keywords e target timeout =
     (case quote_plus e target of
        Inl exc \<Rightarrow> check e target timeout = ([], Inl exc)
      | Inr encoded_target \<Rightarrow>
          let url = template encoded_target;
          outcome = requests_get e url timeout;
          result = snd (check e target timeout)
      in fst (check e target timeout) = [HttpGet url timeout]
         \<and> (\<forall>exc. outcome = RequestException exc \<longrightarrow>
               result_field result ''status'' = Some (VStr (ascii ''error''))
               \<and> result_field result ''error'' = Some (VStr exc))
         \<and> (\<forall>resp. outcome = Response resp \<longrightarrow>
               (let redirect = (300 \<le> status_code resp \<and> status_code resp < 400
                                \<and> headers resp (ascii ''Location'') \<noteq> None);
                    hit = (\<exists>kw \<in> set keywords. sublist kw (resp_text resp))
                in (redirect \<longrightarrow>
                      result_field result ''status'' = Some (VStr (ascii ''ok''))
                      \<and> result_field result ''redirect_to''
                          = map_option VStr (headers resp (ascii ''Location''))
                      \<and> result_field result ''http_status'' = Some (VInt (status_code resp)))
                 \<and> (\<not> redirect \<and> hit \<longrightarrow>
                      result_field result ''status'' = Some (VStr (ascii ''blocked''))
                      \<and> result_field result ''http_status'' = Some (VInt (status_code resp)))
                 \<and> (\<not> redirect \<and> \<not> hit \<longrightarrow>
                      result_field result ''status'' = Some (VStr (ascii ''unknown''))
                      \<and> result_field result ''http_status'' = Some (VInt (status_code resp))))))"

text \<open>
  Environments for concrete runs, in which every request has the same outcome. In the
  first, \<open>quote_plus\<close> returns every target as it is; in the second it raises on a target
  with a surrogate code point (U+D800 to U+DFFF), as the library does.
\<close>

definition env_of :: "http_outcome \<Rightarrow> env" where
  "env_of outcome =
     \<lparr>quote_plus = (\<lambda>s. Inr s), requests_get = (\<lambda>url timeout. outcome)\<rparr>"

definition strict_env_of :: "http_outcome \<Rightarrow> env" where
  "strict_env_of outcome =
     \<lparr>quote_plus = (\<lambda>s. if list_ex (\<lambda>c. 0xD800 \<le> c \<and> c \<le> 0xDFFF) s
                         then Inl (ascii ''UnicodeEncodeError'') else Inr s),
      requests_get = (\<lambda>url timeout. outcome)\<rparr>"

section \<open>The worker pool (douyin\_checker\_gui.py)\<close>

text \<open>
  A worker thread is modelled by its program point inside \<open>_thread_entry\<close> and
  \<open>_worker_loop\<close>, together with the locals that are live there (\<open>url\<close>, \<open>status\<close> and the
  snapshot \<open>(total, checked, normal, blocked)\<close> read under the lock). One step of a worker
  is one of the following, each touching the shared state at a single point: a flag read,
  a queue operation, a section under \<open>self._lock\<close>, the classification call (which reads
  \<open>self.mode\<close> and nothing else of the pool), one signal emission.
\<close>

datatype worker =
    AtLoopHead
  | AtPauseWait
  | AtPop
  | AtClassify str
  | AtUpdate str pyval
  | AtEmitResult str pyval "int \<times> int \<times> int \<times> int"
  | AtEmitStats str pyval "int \<times> int \<times> int \<times> int"
  | AtEmitLog str pyval
  | AtFinally
  | Done

record WorkerManager =
  queue :: "str list"
  threads :: "worker list"
  stop_event :: bool
  pause_event :: bool
  total :: int
  checked :: int
  normal :: int
  blocked :: int
  active_threads :: int
  mode :: str

definition init :: WorkerManager where
  "init = \<lparr>queue = [], threads = [], stop_event = False, pause_event = False,
            total = 0, checked = 0, normal = 0, blocked = 0, active_threads = 0,
            mode = ascii ''douyin''\<rparr>"

text \<open>\<open>while not self._queue.empty(): self._queue.get_nowait()\<close>\<close>

fun drain_queue :: "str list \<Rightarrow> str list" where
  "drain_queue [] = []"
| "drain_queue (u # q) = drain_queue q"

text \<open>
  \<open>start\<close> runs on the caller's thread, which is also the only thread that calls
  \<open>pause\<close>, \<open>resume\<close> and \<open>stop\<close>; the counter \<open>_active_threads\<close> and the queue are set
  before the first thread is started, so the whole call is one step of the model.
  \<open>self._threads = []\<close> drops the thread objects of an earlier run; the model tracks
  the threads in \<open>_threads\<close> only, so statements about a run assume that the threads of
  the run before have all exited.
\<close>

definition start :: "WorkerManager \<Rightarrow> str list \<Rightarrow> int \<Rightarrow> str \<Rightarrow> WorkerManager" where
  "start p urls num_threads mode' =
     (let p1 = p\<lparr>total := int (length urls), checked := 0, normal := 0, blocked := 0\<rparr>;
          p2 = p1\<lparr>mode := mode'\<rparr>;
          p3 = p2\<lparr>stop_event := False, pause_event := False\<rparr>;
          p4 = p3\<lparr>queue := drain_queue (queue p3)\<rparr>;
          p5 = p4\<lparr>queue := foldl (\<lambda>q u. q @ [u]) (queue p4) urls\<rparr>;
          p6 = p5\<lparr>threads := [], active_threads := num_threads\<rparr>
      in p6\<lparr>threads := threads p6 @ replicate (nat num_threads) AtLoopHead\<rparr>)"

definition pause :: "WorkerManager \<Rightarrow> WorkerManager" where
  "pause p = p\<lparr>pause_event := True\<rparr>"

definition resume :: "WorkerManager \<Rightarrow> WorkerManager" where
  "resume p = p\<lparr>pause_event := False\<rparr>"

definition is_paused :: "WorkerManager \<Rightarrow> bool" where
  "is_paused p = pause_event p"

definition stop :: "WorkerManager \<Rightarrow> WorkerManager" where
  "stop p = p\<lparr>stop_event := True, pause_event := False\<rparr>"

text \<open>
  The \<open>try\<close> block of the loop body: the provider dispatch on \<open>self.mode\<close>, the
  classification call with its default timeout 10, and the catch-all handler, which logs
  and leaves \<open>status = "error"\<close>.
\<close>

definition run_check :: "env \<Rightarrow> str \<Rightarrow> str \<Rightarrow> effect list \<times> pyval" where
  "run_check e mode' url =
     (let attempt =
            (if mode' = ascii ''douyin'' then check_douyin_jump e url 10
             else if mode' = ascii ''weibo'' then check_weibo_jump e url 10
             else ([], Inl ([0x672A, 0x77E5, 0x68C0, 0x6D4B, 0x6A21, 0x5F0F, 0x3A, 0x20] @ mode')))
      in case snd attempt of
           Inr result \<Rightarrow> (fst attempt, dict_get result ''status'' (VStr (ascii ''error'')))
         | Inl exc \<Rightarrow>
             (fst attempt
                @ [LogMessage ([0x68C0, 0x6D4B, 0x51FA, 0x9519, 0xFF1A] @ url @ ascii '' -> '' @ exc)],
              VStr (ascii ''error'')))"

definition status_text :: "pyval \<Rightarrow> str" where
  "status_text status =
     (if status = VStr (ascii ''ok'') then [0x6B63, 0x5E38]
      else if status = VStr (ascii ''blocked'') then [0x62E6, 0x622A]
      else if status = VStr (ascii ''unknown'') then [0x672A, 0x77E5]
      else [0x9519, 0x8BEF])"

text \<open>The section under the lock that updates the counters.\<close>

definition update_stats :: "WorkerManager \<Rightarrow> pyval \<Rightarrow> WorkerManager" where
  "update_stats p status =
     (let p1 = p\<lparr>checked := checked p + 1\<rparr>
      in if status = VStr (ascii ''ok'') then p1\<lparr>normal := normal p1 + 1\<rparr>
         else if status = VStr (ascii ''blocked'') then p1\<lparr>blocked := blocked p1 + 1\<rparr>
         else p1)"

text \<open>
  One step of a worker at program point \<open>w\<close>: the effects, the next program point and the
  pool after the step. A thread that has exited has no step. The two flag reads of the
  inner \<open>while self._pause.is_set() and not self._stop.is_set()\<close> are one step; the
  \<open>time.sleep(0.1)\<close> of its body leaves the worker where it is.
\<close>

fun worker_step :: "env \<Rightarrow> WorkerManager \<Rightarrow> worker
    \<Rightarrow> (effect list \<times> worker \<times> WorkerManager) option" where
  "worker_step e p AtLoopHead =
     Some ([], if \<not> stop_event p then AtPauseWait else AtFinally, p)"
| "worker_step e p AtPauseWait =
     Some ([], if pause_event p \<and> \<not> stop_event p then AtPauseWait else AtPop, p)"
| "worker_step e p AtPop =
     (case queue p of
        [] \<Rightarrow> Some ([], AtFinally, p)
      | url # rest \<Rightarrow> Some ([], AtClassify url, p\<lparr>queue := rest\<rparr>))"
| "worker_step e p (AtClassify url) =
     (let r = run_check e (mode p) url in Some (fst r, AtUpdate url (snd r), p))"
| "worker_step e p (AtUpdate url status) =
     (let p' = update_stats p status
      in Some ([], AtEmitResult url status (total p', checked p', normal p', blocked p'), p'))"
| "worker_step e p (AtEmitResult url status snap) =
     Some ([ResultReady url status], AtEmitStats url status snap, p)"
| "worker_step e p (AtEmitStats url status (t, c, n, b)) =
     Some ([StatsUpdate t c n b], AtEmitLog url status, p)"
| "worker_step e p (AtEmitLog url status) =
     Some ([LogMessage (url @ ascii '' -> '' @ status_text status)], AtLoopHead, p)"
| "worker_step e p AtFinally =
     (let p' = p\<lparr>active_threads := active_threads p - 1\<rparr>
      in Some (if active_threads p' \<le> 0 then [Finished] else [], Done, p'))"
| "worker_step e p Done = None"

text \<open>
  What can happen next to a pool: worker \<open>i\<close> takes its next step, or the caller's thread
  calls one of the control operations.
\<close>

datatype action = Work nat | Pause | Resume | Stop

fun step :: "env \<Rightarrow> action \<Rightarrow> WorkerManager \<Rightarrow> (effect list \<times> WorkerManager) option" where
  "step e (Work i) p =
     (if i < length (threads p)
      then (case worker_step e p (threads p ! i) of
              None \<Rightarrow> None
            | Some (effs, w', p') \<Rightarrow> Some (effs, p'\<lparr>threads := (threads p')[i := w']\<rparr>))
      else None)"
| "step e Pause p = Some ([], pause p)"
| "step e Resume p = Some ([], resume p)"
| "step e Stop p = Some ([], stop p)"

text \<open>A schedule is a list of actions; \<open>exec\<close> runs it and collects the effects in order.\<close>

fun exec :: "env \<Rightarrow> action list \<Rightarrow> WorkerManager \<Rightarrow> (effect list \<times> WorkerManager) option" where
  "exec e [] p = Some ([], p)"
| "exec e (a # as) p =
     (case step e a p of
        None \<Rightarrow> None
      | Some (effs, p') \<Rightarrow>
          (case exec e as p' of
             None \<Rightarrow> None
           | Some (effs', p'') \<Rightarrow> Some (effs @ effs', p'')))"

text \<open>Notions used to state the properties of a run.\<close>

definition all_done :: "WorkerManager \<Rightarrow> bool" where
  "all_done p = list_all (\<lambda>w. w = Done) (threads p)"

definition counters :: "WorkerManager \<Rightarrow> int \<times> int \<times> int \<times> int" where
  "counters p = (total p, checked p, normal p, blocked p)"

fun is_work :: "action \<Rightarrow> bool" where
  "is_work (Work i) = True"
| "is_work a = False"

text \<open>
  An upper bound on the number of worker steps left when no worker sleeps: eight steps
  for each queued task, and for each worker the steps from its program point to the next
  pop or to its exit.
\<close>

fun rank :: "worker \<Rightarrow> nat" where
  "rank Done = 0"
| "rank AtFinally = 1"
| "rank AtPop = 2"
| "rank AtPauseWait = 3"
| "rank AtLoopHead = 4"
| "rank (AtEmitLog url status) = 5"
| "rank (AtEmitStats url status snap) = 6"
| "rank (AtEmitResult url status snap) = 7"
| "rank (AtUpdate url status) = 8"
| "rank (AtClassify url) = 9"

definition remaining :: "WorkerManager \<Rightarrow> nat" where
  "remaining p = 8 * length (queue p) + sum_list (map rank (threads p))"

text \<open>Quantities of a pool that the invariant of a run is stated with.\<close>

fun in_flight :: "worker \<Rightarrow> nat" where
  "in_flight (AtClassify url) = 1"
| "in_flight (AtUpdate url status) = 1"
| "in_flight w = 0"

fun exited :: "worker \<Rightarrow> nat" where
  "exited Done = 1"
| "exited w = 0"

definition snapshot_ok :: "int \<Rightarrow> int \<times> int \<times> int \<times> int \<Rightarrow> bool" where
  "snapshot_ok tot snap =
     (case snap of (t, c, k, b) \<Rightarrow>
        t = tot \<and> 0 \<le> c \<and> c \<le> t \<and> 0 \<le> k \<and> 0 \<le> b \<and> k + b \<le> c)"

fun holds_ok_snapshot :: "int \<Rightarrow> worker \<Rightarrow> bool" where
  "holds_ok_snapshot tot (AtEmitResult url status snap) = snapshot_ok tot snap"
| "holds_ok_snapshot tot (AtEmitStats url status snap) = snapshot_ok tot snap"
| "holds_ok_snapshot tot w = True"

definition run_inv :: "int \<Rightarrow> WorkerManager \<Rightarrow> bool" where
  "run_inv n p =
     (length (threads p) = nat n
      \<and> active_threads p = n - int (sum_list (map exited (threads p)))
      \<and> 0 \<le> checked p \<and> 0 \<le> normal p \<and> 0 \<le> blocked p
      \<and> normal p + blocked p \<le> checked p
      \<and> checked p + int (length (queue p)) + int (sum_list (map in_flight (threads p)))
          = total p
      \<and> (\<forall>w \<in> set (threads p). holds_ok_snapshot (total p) w))"

text \<open>The number of completion signals a pool in state \<open>p\<close> has emitted in its run.\<close>

definition done_ind :: "WorkerManager \<Rightarrow> nat" where
  "done_ind p = (if all_done p then 1 else 0)"

text \<open>
  What holds of a run as long as \<open>stop\<close> has not been called: a worker leaves its loop only
  when it found the queue empty.
\<close>

definition unstopped_inv :: "WorkerManager \<Rightarrow> bool" where
  "unstopped_inv p =
     (\<not> stop_event p
      \<and> ((\<exists>w \<in> set (threads p). w = AtFinally \<or> w = Done) \<longrightarrow> queue p = []))"




text \<open>What holds of a run started with an empty task list.\<close>

fun idle_point :: "worker \<Rightarrow> bool" where
  "idle_point (AtClassify url) = False"
| "idle_point (AtUpdate url status) = False"
| "idle_point (AtEmitResult url status snap) = False"
| "idle_point (AtEmitStats url status snap) = False"
| "idle_point (AtEmitLog url status) = False"
| "idle_point w = True"

definition empty_run_inv :: "WorkerManager \<Rightarrow> bool" where
  "empty_run_inv p =
     (queue p = [] \<and> counters p = (0, 0, 0, 0) \<and> (\<forall>w \<in> set (threads p). idle_point w))"

text \<open>
  For a status \<open>s\<close>, the number of tasks not yet counted whose classification is \<open>s\<close>:
  those in the queue and those a worker holds before its counter update.
\<close>

fun pending :: "env \<Rightarrow> str \<Rightarrow> pyval \<Rightarrow> worker \<Rightarrow> nat" where
  "pending e m s (AtClassify url) = (if snd (run_check e m url) = s then 1 else 0)"
| "pending e m s (AtUpdate url status) = (if status = s then 1 else 0)"
| "pending e m s w = 0"

definition tally :: "env \<Rightarrow> pyval \<Rightarrow> WorkerManager \<Rightarrow> nat" where
  "tally e s p =
     length (filter (\<lambda>u. snd (run_check e (mode p) u) = s) (queue p))
     + sum_list (map (pending e (mode p) s) (threads p))"

definition expected_counters :: "env \<Rightarrow> str \<Rightarrow> str list \<Rightarrow> int \<times> int \<times> int \<times> int" where
  "expected_counters e m urls =
     (int (length urls), int (length urls),
      int (length (filter (\<lambda>u. snd (run_check e m u) = VStr (ascii ''ok'')) urls)),
      int (length (filter (\<lambda>u. snd (run_check e m u) = VStr (ascii ''blocked'')) urls)))"

text \<open>An environment for concrete runs: the redirector lets \<open>a.com\<close> through and blocks every other target.\<close>

definition demo_env :: env where
  "demo_env =
     \<lparr>quote_plus = (\<lambda>s. Inr s),
      requests_get = (\<lambda>url timeout.
         if url = DOUYIN_CHECK_URL_TEMPLATE (ascii ''a.com'')
         then Response \<lparr>status_code = 302,
                         headers = [ascii ''Location'' \<mapsto> ascii ''https://a.com/''],
                         resp_text = []\<rparr>
         else Response \<lparr>status_code = 200, headers = Map.empty,
                         resp_text = [0x505C, 0x6B62]\<rparr>)\<rparr>"

section \<open>Domain extraction (douyin\_checker\_gui.py)\<close>

text \<open>
  \<open>DOMAIN_REGEX.findall(text)\<close> and \<open>match.lower()\<close> consult Unicode tables for characters
  outside ASCII: whether a character is alphanumeric (the \<open>\w\<close> of \<open>\b\<close>), and the lower-case
  form of a string that is not pure ASCII. Both tables are parameters of the model.
\<close>

record unicode_tables =
  uni_isalnum :: "nat \<Rightarrow> bool"
  uni_lower :: "str \<Rightarrow> str"

text \<open>
  The constructs of the pattern: a character class, \<open>\b\<close>, concatenation and the greedy
  star; \<open>r+\<close> is \<open>r r*\<close> and \<open>r{2,}\<close> is \<open>r r r*\<close>.
\<close>

datatype regex =
    Class "nat \<Rightarrow> bool"
  | WordBoundary
  | Seq regex regex
  | Star regex

definition repeat1 :: "regex \<Rightarrow> regex" where
  "repeat1 r = Seq r (Star r)"

definition repeat2 :: "regex \<Rightarrow> regex" where
  "repeat2 r = Seq r (Seq r (Star r))"

text \<open>
  A position in the text: the character before it (\<open>None\<close> at the start) and the rest of
  the text from it on.
\<close>

type_synonym cursor = "nat option \<times> str"

definition ascii_alnum :: "nat \<Rightarrow> bool" where
  "ascii_alnum c = ((97 \<le> c \<and> c \<le> 122) \<or> (65 \<le> c \<and> c \<le> 90) \<or> (48 \<le> c \<and> c \<le> 57))"

definition ascii_alpha :: "nat \<Rightarrow> bool" where
  "ascii_alpha c = ((97 \<le> c \<and> c \<le> 122) \<or> (65 \<le> c \<and> c \<le> 90))"

text \<open>\<open>\w\<close> of a \<open>str\<close> pattern: alphanumeric or underscore.\<close>

definition is_word :: "unicode_tables \<Rightarrow> nat \<Rightarrow> bool" where
  "is_word u c = (if c < 128 then ascii_alnum c \<or> c = 95 else uni_isalnum u c)"

definition at_boundary :: "unicode_tables \<Rightarrow> cursor \<Rightarrow> bool" where
  "at_boundary u cur =
     ((case fst cur of None \<Rightarrow> False | Some c \<Rightarrow> is_word u c)
      \<noteq> (case snd cur of [] \<Rightarrow> False | c # cs \<Rightarrow> is_word u c))"

text \<open>
  Backtracking matching: \<open>ends u r cur\<close> lists the positions at which a match of \<open>r\<close>
  starting at \<open>cur\<close> can end, in the order in which the matcher tries them (a greedy star
  tries one more iteration first, and an iteration that consumed nothing is not repeated).
  The match the engine reports is the first of the list.
\<close>

function ends :: "unicode_tables \<Rightarrow> regex \<Rightarrow> cursor \<Rightarrow> cursor list" where
  "ends u (Class P) cur =
     (case snd cur of [] \<Rightarrow> [] | c # cs \<Rightarrow> if P c then [(Some c, cs)] else [])"
| "ends u WordBoundary cur = (if at_boundary u cur then [cur] else [])"
| "ends u (Seq r1 r2) cur = concat (map (ends u r2) (ends u r1 cur))"
| "ends u (Star r) cur =
     concat (map (\<lambda>c'. if length (snd c') < length (snd cur) then ends u (Star r) c' else [c'])
                 (ends u r cur))
     @ [cur]"
  by pat_completeness auto
termination
  by (relation "measures [\<lambda>(u, r, cur). size r, \<lambda>(u, r, cur). length (snd cur)]") auto

declare ends.simps(4) [simp del]

text \<open>\<^verbatim>\<open>\b(?:(?:[a-zA-Z0-9][a-zA-Z0-9-]*\.)+[a-zA-Z]{2,})\b\<close>\<close>

definition DOMAIN_REGEX :: regex where
  "DOMAIN_REGEX =
     Seq WordBoundary
       (Seq (repeat1 (Seq (Class ascii_alnum)
                    (Seq (Star (Class (\<lambda>c. ascii_alnum c \<or> c = 45)))
                         (Class (\<lambda>c. c = 46)))))
            (Seq (repeat2 (Class ascii_alpha))
                 WordBoundary))"

text \<open>
  \<open>findall\<close>: the matches from left to right, each search starting where the match before
  ended; the pattern has no capture group, so each item is the matched text. Where no
  match starts (or the match is empty, which \<open>DOMAIN_REGEX\<close> never is) the scan moves on
  by one character.
\<close>

function findall :: "unicode_tables \<Rightarrow> regex \<Rightarrow> cursor \<Rightarrow> str list" where
  "findall u r cur =
     (case ends u r cur of
        c' # alternatives \<Rightarrow>
          if length (snd c') < length (snd cur)
          then take (length (snd cur) - length (snd c')) (snd cur) # findall u r c'
          else (case snd cur of [] \<Rightarrow> [] | c # cs \<Rightarrow> findall u r (Some c, cs))
      | [] \<Rightarrow> (case snd cur of [] \<Rightarrow> [] | c # cs \<Rightarrow> findall u r (Some c, cs)))"
  by pat_completeness auto
termination
  by (relation "measure (\<lambda>(u, r, cur). length (snd cur))") auto

declare findall.simps [simp del]

text \<open>\<open>str.lower()\<close>: on a pure ASCII string, A to Z go to a to z and nothing else changes.\<close>

definition py_lower :: "unicode_tables \<Rightarrow> str \<Rightarrow> str" where
  "py_lower u s =
     (if list_all (\<lambda>c. c < 128) s
      then map (\<lambda>c. if 65 \<le> c \<and> c \<le> 90 then c + 32 else c) s
      else uni_lower u s)"

text \<open>The loop of \<open>extract_domains_from_text\<close> over the matches, with \<open>seen\<close> and \<open>domains\<close>.\<close>

fun extract_loop :: "unicode_tables \<Rightarrow> str list \<Rightarrow> str set \<Rightarrow> str list \<Rightarrow> str list" where
  "extract_loop u [] seen domains = domains"
| "extract_loop u (m # ms) seen domains =
     (let domain = py_lower u m
      in if domain \<notin> seen
         then extract_loop u ms (insert domain seen) (domains @ [domain])
         else extract_loop u ms seen domains)"

definition extract_domains_from_text :: "unicode_tables \<Rightarrow> str \<Rightarrow> str list" where
  "extract_domains_from_text u text =
     extract_loop u (findall u DOMAIN_REGEX (None, text)) {} []"

text \<open>
  The specification's words, for comparison: a list with duplicates removed, keeping the
  first occurrence of each element, in the order of the first occurrences.
\<close>

fun first_occurrences :: "'a list \<Rightarrow> 'a list" where
  "first_occurrences [] = []"
| "first_occurrences (x # xs) = x # first_occurrences (removeAll x xs)"

text \<open>The characters a match consists of, and those of a lower-cased match.\<close>

definition domain_char :: "nat \<Rightarrow> bool" where
  "domain_char c = (ascii_alnum c \<or> c = 45 \<or> c = 46)"

definition lower_domain_char :: "nat \<Rightarrow> bool" where
  "lower_domain_char c = ((97 \<le> c \<and> c \<le> 122) \<or> (48 \<le> c \<and> c \<le> 57) \<or> c = 45 \<or> c = 46)"

fun domain_classes :: "regex \<Rightarrow> bool" where
  "domain_classes (Class P) = (\<forall>c. P c \<longrightarrow> domain_char c)"
| "domain_classes WordBoundary = True"
| "domain_classes (Seq r1 r2) = (domain_classes r1 \<and> domain_classes r2)"
| "domain_classes (Star r) = domain_classes r"


text \<open>
  Whether a worker at this program point can still pop a task once \<open>_stop\<close> is set: only
  between the test at the head of its loop and the pop.
\<close>

fun may_pop :: "worker \<Rightarrow> nat" where
  "may_pop AtPauseWait = 1"
| "may_pop AtPop = 1"
| "may_pop w = 0"

section \<open>Properties of the classifier\<close>

lemma ascii_eq_iff [simp]: "ascii a = ascii b \<longleftrightarrow> a = b"
  by (simp add: ascii_def inj_map_eq_map inj_of_char)

lemma decision_table_douyin:
  "decision_table check_douyin_jump DOUYIN_CHECK_URL_TEMPLATE DOUYIN_BLOCK_KEYWORDS e target timeout"
  by (auto simp: decision_table_def check_douyin_jump_def result_field_def Let_def filter_empty_conv
           split: sum.splits http_outcome.splits option.splits)

lemma decision_table_weibo:
  "decision_table check_weibo_jump WEIBO_CHECK_URL_TEMPLATE weibo_block_keywords e target timeout"
  by (auto simp: decision_table_def check_weibo_jump_def result_field_def Let_def filter_empty_conv
           split: sum.splits http_outcome.splits option.splits)

text \<open>
  C1, as the code has it. For every target URL that \<open>quote_plus\<close> encodes, every timeout
  and every outcome of the HTTP call, each classifier makes exactly one request (no retry)
  and decides in the fixed order: a transport failure gives status error with the failure
  text under \<open>error\<close>; otherwise a status code in [300,400) with a Location header gives
  ok, the header value under \<open>redirect_to\<close> and the code under \<open>http_status\<close>; otherwise a
  body containing a block keyword of the provider gives blocked; otherwise unknown, with
  the code under \<open>http_status\<close>. For a target on which \<open>quote_plus\<close> raises, the classifier
  makes no request and decides nothing: the exception leaves it.
\<close>

theorem classifier_decision_order:
  "decision_table check_douyin_jump DOUYIN_CHECK_URL_TEMPLATE DOUYIN_BLOCK_KEYWORDS e target timeout
   \<and> decision_table check_weibo_jump WEIBO_CHECK_URL_TEMPLATE weibo_block_keywords e target timeout"
  using decision_table_douyin decision_table_weibo by simp

theorem classifier_decision_order_witness:
  "(quote_plus (env_of (RequestException (ascii ''timeout''))) (ascii ''a.com'')
      = Inr (ascii ''a.com'')
    \<and> requests_get (env_of (RequestException (ascii ''timeout'')))
        (DOUYIN_CHECK_URL_TEMPLATE (ascii ''a.com'')) 10 = RequestException (ascii ''timeout'')
    \<and> result_field (snd (check_douyin_jump (env_of (RequestException (ascii ''timeout'')))
          (ascii ''a.com'') 10)) ''status'' = Some (VStr (ascii ''error''))
    \<and> result_field (snd (check_douyin_jump (env_of (RequestException (ascii ''timeout'')))
          (ascii ''a.com'') 10)) ''error'' = Some (VStr (ascii ''timeout'')))
   \<and> ((300::int) \<le> 302 \<and> (302::int) < 400
    \<and> [ascii ''Location'' \<mapsto> ascii ''https://x.com/y''] (ascii ''Location'') \<noteq> None
    \<and> result_field (snd (check_douyin_jump (env_of (Response \<lparr>status_code = 302,
          headers = [ascii ''Location'' \<mapsto> ascii ''https://x.com/y''], resp_text = []\<rparr>))
          (ascii ''a.com'') 10)) ''status'' = Some (VStr (ascii ''ok''))
    \<and> result_field (snd (check_douyin_jump (env_of (Response \<lparr>status_code = 302,
          headers = [ascii ''Location'' \<mapsto> ascii ''https://x.com/y''], resp_text = []\<rparr>))
          (ascii ''a.com'') 10)) ''redirect_to'' = Some (VStr (ascii ''https://x.com/y''))
    \<and> result_field (snd (check_douyin_jump (env_of (Response \<lparr>status_code = 302,
          headers = [ascii ''Location'' \<mapsto> ascii ''https://x.com/y''], resp_text = []\<rparr>))
          (ascii ''a.com'') 10)) ''http_status'' = Some (VInt 302))
   \<and> (sublist [0x5DF2, 0x7EC8, 0x6B62, 0x8BBF, 0x95EE, 0x8BE5, 0x7F51, 0x9875]
          (resp_text \<lparr>status_code = 200, headers = Map.empty,
             resp_text = [0x5DF2, 0x7EC8, 0x6B62, 0x8BBF, 0x95EE, 0x8BE5, 0x7F51, 0x9875]\<rparr>)
    \<and> result_field (snd (check_douyin_jump (env_of (Response \<lparr>status_code = 200,
          headers = Map.empty,
          resp_text = [0x5DF2, 0x7EC8, 0x6B62, 0x8BBF, 0x95EE, 0x8BE5, 0x7F51, 0x9875]\<rparr>))
          (ascii ''a.com'') 10)) ''status'' = Some (VStr (ascii ''blocked'')))
   \<and> (\<not> (\<exists>kw \<in> set weibo_block_keywords. sublist kw (ascii ''hello''))
    \<and> result_field (snd (check_weibo_jump (env_of (Response \<lparr>status_code = 200,
          headers = Map.empty, resp_text = ascii ''hello''\<rparr>)) (ascii ''a.com'') 10)) ''status''
        = Some (VStr (ascii ''unknown'')))
   \<and> (quote_plus (strict_env_of (RequestException (ascii ''timeout''))) [0xD800, 0x2E, 0x63, 0x6F, 0x6D]
        = Inl (ascii ''UnicodeEncodeError'')
    \<and> check_weibo_jump (strict_env_of (RequestException (ascii ''timeout'')))
          [0xD800, 0x2E, 0x63, 0x6F, 0x6D] 10 = ([], Inl (ascii ''UnicodeEncodeError'')))"
proof -
  show ?thesis
    using classifier_decision_order[of "strict_env_of (RequestException (ascii ''timeout''))"
        "[0xD800, 0x2E, 0x63, 0x6F, 0x6D]" 10]
      classifier_decision_order[of "env_of (RequestException (ascii ''timeout''))" "ascii ''a.com''" 10]
      classifier_decision_order[of "env_of (Response \<lparr>status_code = 302,
          headers = [ascii ''Location'' \<mapsto> ascii ''https://x.com/y''], resp_text = []\<rparr>)" "ascii ''a.com''" 10]
      classifier_decision_order[of "env_of (Response \<lparr>status_code = 200,
          headers = Map.empty,
          resp_text = [0x5DF2, 0x7EC8, 0x6B62, 0x8BBF, 0x95EE, 0x8BE5, 0x7F51, 0x9875]\<rparr>)" "ascii ''a.com''" 10]
      classifier_decision_order[of "env_of (Response \<lparr>status_code = 200,
          headers = Map.empty, resp_text = ascii ''hello''\<rparr>)" "ascii ''a.com''" 10]
    by (simp add: decision_table_def env_of_def strict_env_of_def Let_def
          DOUYIN_BLOCK_KEYWORDS_def weibo_block_keywords_def ascii_def sublist_code prefix_code)
qed

text \<open>
  The claim as stated fails at a target with a lone surrogate: the response would be a
  200 with the body "hello", for which the claim gives status unknown, but the classifier
  raises in \<open>quote_plus\<close>, sends no request and returns no status.
\<close>

theorem classifier_unencodable_target_counterexample:
  "check_douyin_jump
       (strict_env_of (Response \<lparr>status_code = 200, headers = Map.empty,
                                  resp_text = ascii ''hello''\<rparr>))
       [0xD800, 0x2E, 0x63, 0x6F, 0x6D] 10
     = ([], Inl (ascii ''UnicodeEncodeError''))
   \<and> result_field
         (snd (check_douyin_jump
                 (strict_env_of (Response \<lparr>status_code = 200, headers = Map.empty,
                                            resp_text = ascii ''hello''\<rparr>))
                 [0xD800, 0x2E, 0x63, 0x6F, 0x6D] 10)) ''status''
     = None"
  by (simp add: check_douyin_jump_def strict_env_of_def result_field_def)

lemma blocked_douyin:
  assumes "snd (check_douyin_jump e target timeout) = Inr d"
    and "d ''status'' = Some (VStr (ascii ''blocked''))"
  shows "\<exists>enc resp. quote_plus e target = Inr enc
          \<and> requests_get e (DOUYIN_CHECK_URL_TEMPLATE enc) timeout = Response resp
          \<and> d ''keywords''
              = Some (VList (filter (\<lambda>kw. sublist kw (resp_text resp)) DOUYIN_BLOCK_KEYWORDS))
          \<and> filter (\<lambda>kw. sublist kw (resp_text resp)) DOUYIN_BLOCK_KEYWORDS \<noteq> []"
proof (cases "quote_plus e target")
  case (Inl exc)
  with assms show ?thesis by (simp add: check_douyin_jump_def)
next
  case (Inr enc)
  show ?thesis
  proof (cases "requests_get e (DOUYIN_CHECK_URL_TEMPLATE enc) timeout")
    case (Response resp)
    with assms Inr show ?thesis
      by (auto simp: check_douyin_jump_def Let_def split: option.splits if_splits)
  next
    case (RequestException exc)
    with assms Inr show ?thesis
      by (auto simp: check_douyin_jump_def Let_def)
  next
    case (OtherException exc)
    with assms Inr show ?thesis
      by (auto simp: check_douyin_jump_def Let_def)
  qed
qed

lemma blocked_weibo:
  assumes "snd (check_weibo_jump e target timeout) = Inr d"
    and "d ''status'' = Some (VStr (ascii ''blocked''))"
  shows "\<exists>enc resp. quote_plus e target = Inr enc
          \<and> requests_get e (WEIBO_CHECK_URL_TEMPLATE enc) timeout = Response resp
          \<and> d ''keywords''
              = Some (VList (filter (\<lambda>kw. sublist kw (resp_text resp)) weibo_block_keywords))
          \<and> filter (\<lambda>kw. sublist kw (resp_text resp)) weibo_block_keywords \<noteq> []"
proof (cases "quote_plus e target")
  case (Inl exc)
  with assms show ?thesis by (simp add: check_weibo_jump_def)
next
  case (Inr enc)
  show ?thesis
  proof (cases "requests_get e (WEIBO_CHECK_URL_TEMPLATE enc) timeout")
    case (Response resp)
    with assms Inr show ?thesis
      by (auto simp: check_weibo_jump_def Let_def split: option.splits if_splits)
  next
    case (RequestException exc)
    with assms Inr show ?thesis
      by (auto simp: check_weibo_jump_def Let_def)
  next
    case (OtherException exc)
    with assms Inr show ?thesis
      by (auto simp: check_weibo_jump_def Let_def)
  qed
qed

text \<open>
  C6. Whenever a classifier returns status blocked, the list under \<open>keywords\<close> is exactly
  the provider's keyword list filtered, in its declared order, to the keywords that occur
  in the response body as contiguous subsequences of code points (so the match is
  case-sensitive), and that list is not empty.
\<close>

theorem blocked_keywords:
  "(snd (check_douyin_jump e target timeout) = Inr d
      \<and> d ''status'' = Some (VStr (ascii ''blocked''))
    \<longrightarrow> (\<exists>enc resp. quote_plus e target = Inr enc
          \<and> requests_get e (DOUYIN_CHECK_URL_TEMPLATE enc) timeout = Response resp
          \<and> d ''keywords''
              = Some (VList (filter (\<lambda>kw. \<exists>ps ss. resp_text resp = ps @ kw @ ss)
                                 DOUYIN_BLOCK_KEYWORDS))
          \<and> filter (\<lambda>kw. \<exists>ps ss. resp_text resp = ps @ kw @ ss) DOUYIN_BLOCK_KEYWORDS \<noteq> []))
   \<and> (snd (check_weibo_jump e target timeout) = Inr d'
      \<and> d' ''status'' = Some (VStr (ascii ''blocked''))
    \<longrightarrow> (\<exists>enc resp. quote_plus e target = Inr enc
          \<and> requests_get e (WEIBO_CHECK_URL_TEMPLATE enc) timeout = Response resp
          \<and> d' ''keywords''
              = Some (VList (filter (\<lambda>kw. \<exists>ps ss. resp_text resp = ps @ kw @ ss)
                                 weibo_block_keywords))
          \<and> filter (\<lambda>kw. \<exists>ps ss. resp_text resp = ps @ kw @ ss) weibo_block_keywords \<noteq> []))"
  using blocked_douyin[of e target timeout d] blocked_weibo[of e target timeout d']
  by (simp only: sublist_def) blast


theorem blocked_keywords_witness:
  "snd (check_douyin_jump
          (env_of (Response \<lparr>status_code = 200, headers = Map.empty,
                     resp_text = [0x5DF2, 0x505C, 0x6B62, 0x8BBF, 0x95EE]\<rparr>)) (ascii ''a.com'') 10)
     = Inr [''status'' \<mapsto> VStr (ascii ''blocked''), ''keywords'' \<mapsto> VList [[0x505C, 0x6B62]],
            ''http_status'' \<mapsto> VInt 200]
   \<and> snd (check_weibo_jump
          (env_of (Response \<lparr>status_code = 200, headers = Map.empty,
                     resp_text = [0x5DF2, 0x505C, 0x6B62, 0x8BBF, 0x95EE]\<rparr>)) (ascii ''a.com'') 10)
     = Inr [''status'' \<mapsto> VStr (ascii ''blocked''),
            ''keywords'' \<mapsto> VList [[0x5DF2, 0x505C, 0x6B62, 0x8BBF, 0x95EE]],
            ''http_status'' \<mapsto> VInt 200]
   \<and> filter (\<lambda>kw. \<exists>ps ss. [0x5DF2, 0x505C, 0x6B62, 0x8BBF, 0x95EE] = ps @ kw @ ss)
        DOUYIN_BLOCK_KEYWORDS = [[0x505C, 0x6B62]]
   \<and> filter (\<lambda>kw. \<exists>ps ss. [0x5DF2, 0x505C, 0x6B62, 0x8BBF, 0x95EE] = ps @ kw @ ss)
        weibo_block_keywords = [[0x5DF2, 0x505C, 0x6B62, 0x8BBF, 0x95EE]]"
proof -
  let ?body = "[0x5DF2, 0x505C, 0x6B62, 0x8BBF, 0x95EE] :: str"
  let ?e = "env_of (Response \<lparr>status_code = 200, headers = Map.empty, resp_text = ?body\<rparr>)"
  let ?d = "[''status'' \<mapsto> VStr (ascii ''blocked''), ''keywords'' \<mapsto> VList [[0x505C, 0x6B62]],
             ''http_status'' \<mapsto> VInt 200]"
  let ?d' = "[''status'' \<mapsto> VStr (ascii ''blocked''),
              ''keywords'' \<mapsto> VList [[0x5DF2, 0x505C, 0x6B62, 0x8BBF, 0x95EE]],
              ''http_status'' \<mapsto> VInt 200]"
  have h1: "snd (check_douyin_jump ?e (ascii ''a.com'') 10) = Inr ?d"
    by (simp add: check_douyin_jump_def env_of_def Let_def DOUYIN_BLOCK_KEYWORDS_def
          sublist_code prefix_code)
  have h2: "snd (check_weibo_jump ?e (ascii ''a.com'') 10) = Inr ?d'"
    by (simp add: check_weibo_jump_def env_of_def Let_def weibo_block_keywords_def
          sublist_code prefix_code)
  have s1: "?d ''status'' = Some (VStr (ascii ''blocked''))" by simp
  have s2: "?d' ''status'' = Some (VStr (ascii ''blocked''))" by simp
  from blocked_keywords[of ?e "ascii ''a.com''" 10 ?d ?d'] h1 h2 s1 s2
  have "?d ''keywords''
          = Some (VList (filter (\<lambda>kw. \<exists>ps ss. ?body = ps @ kw @ ss) DOUYIN_BLOCK_KEYWORDS))
        \<and> ?d' ''keywords''
          = Some (VList (filter (\<lambda>kw. \<exists>ps ss. ?body = ps @ kw @ ss) weibo_block_keywords))"
    by (simp add: env_of_def)
  with h1 h2 show ?thesis by simp
qed

section \<open>Properties of the worker pool\<close>

lemma foldl_snoc: "foldl (\<lambda>q u. q @ [u]) q urls = q @ urls"
  by (induction urls arbitrary: q) simp_all

lemma drain_queue_Nil [simp]: "drain_queue q = []"
  by (induction q) simp_all

text \<open>
  C7. Every call of \<open>start\<close> sets \<open>total\<close> to the number of tasks and the other three
  counters to 0, clears both control flags, leaves exactly the given tasks in the queue
  in their order whatever the queue held before, and creates \<open>num_threads\<close> worker
  threads, each at the head of its loop.
\<close>

theorem start_resets_pool:
  "total (start p urls n m) = int (length urls)
   \<and> checked (start p urls n m) = 0 \<and> normal (start p urls n m) = 0
   \<and> blocked (start p urls n m) = 0
   \<and> stop_event (start p urls n m) = False \<and> pause_event (start p urls n m) = False
   \<and> queue (start p urls n m) = urls
   \<and> mode (start p urls n m) = m
   \<and> active_threads (start p urls n m) = n
   \<and> threads (start p urls n m) = replicate (nat n) AtLoopHead
   \<and> (0 \<le> n \<longrightarrow> int (length (threads (start p urls n m))) = n)"
  by (simp add: start_def Let_def foldl_snoc)

theorem start_resets_pool_witness:
  "(0::int) \<le> 3
   \<and> counters (start (init\<lparr>queue := [ascii ''old.com''], checked := 7, stop_event := True\<rparr>)
        [ascii ''a.com'', ascii ''b.com''] 3 (ascii ''weibo'')) = (2, 0, 0, 0)
   \<and> queue (start (init\<lparr>queue := [ascii ''old.com''], checked := 7, stop_event := True\<rparr>)
        [ascii ''a.com'', ascii ''b.com''] 3 (ascii ''weibo'')) = [ascii ''a.com'', ascii ''b.com'']
   \<and> stop_event (start (init\<lparr>queue := [ascii ''old.com''], checked := 7, stop_event := True\<rparr>)
        [ascii ''a.com'', ascii ''b.com''] 3 (ascii ''weibo'')) = False
   \<and> int (length (threads (start (init\<lparr>queue := [ascii ''old.com''], checked := 7,
        stop_event := True\<rparr>) [ascii ''a.com'', ascii ''b.com''] 3 (ascii ''weibo'')))) = 3"
  using start_resets_pool[of "init\<lparr>queue := [ascii ''old.com''], checked := 7, stop_event := True\<rparr>"
      "[ascii ''a.com'', ascii ''b.com'']" 3 "ascii ''weibo''"]
  by (simp add: counters_def)

lemma sum_list_map_update:
  fixes f :: "'a \<Rightarrow> nat"
  shows "i < length xs \<Longrightarrow> sum_list (map f (xs[i := y])) + f (xs ! i) = sum_list (map f xs) + f y"
proof (induction xs arbitrary: i)
  case Nil
  then show ?case by simp
next
  case (Cons x xs)
  then show ?case by (cases i) auto
qed

lemma worker_step_frame:
  assumes "worker_step e p w = Some (effs, w', p1)"
  shows "threads p1 = threads p \<and> total p1 = total p \<and> mode p1 = mode p
         \<and> stop_event p1 = stop_event p \<and> pause_event p1 = pause_event p"
  using assms
  by (cases w) (auto simp: update_stats_def Let_def split: list.splits if_splits prod.splits)


lemma worker_step_checked:
  assumes "worker_step e p w = Some (effs, w', p1)"
  shows "checked p1 + int (length (queue p1)) + int (in_flight w')
           = checked p + int (length (queue p)) + int (in_flight w)"
  using assms
  by (cases w) (auto simp: update_stats_def Let_def split: list.splits if_splits prod.splits)

lemma worker_step_active:
  assumes "worker_step e p w = Some (effs, w', p1)"
  shows "active_threads p1 + int (exited w') = active_threads p + int (exited w)"
  using assms
  by (cases w) (auto simp: update_stats_def Let_def split: list.splits if_splits prod.splits)

lemma worker_step_mono:
  assumes "worker_step e p w = Some (effs, w', p1)"
  shows "checked p \<le> checked p1 \<and> normal p \<le> normal p1 \<and> blocked p \<le> blocked p1
         \<and> normal p1 + blocked p1 - checked p1 \<le> normal p + blocked p - checked p"
  using assms
  by (cases w) (auto simp: update_stats_def Let_def split: list.splits if_splits prod.splits)

lemma worker_step_snapshot:
  assumes "worker_step e p w = Some (effs, w', p1)" "holds_ok_snapshot (total p) w"
    "0 \<le> checked p" "0 \<le> normal p" "0 \<le> blocked p" "normal p + blocked p \<le> checked p"
    "checked p + int (length (queue p)) + int (in_flight w) \<le> total p"
  shows "holds_ok_snapshot (total p1) w'"
  using assms
  by (cases w) (auto simp: update_stats_def Let_def snapshot_ok_def split: list.splits if_splits prod.splits)

lemma step_WorkE:
  assumes "step e (Work i) p = Some (effs, p')"
  obtains w' p1 where "i < length (threads p)" "worker_step e p (threads p ! i) = Some (effs, w', p1)"
    "p' = p1\<lparr>threads := (threads p)[i := w']\<rparr>"
proof -
  from assms have i: "i < length (threads p)" by (simp split: if_splits)
  with assms obtain w' p1 where ws: "worker_step e p (threads p ! i) = Some (effs, w', p1)"
    and p': "p' = p1\<lparr>threads := (threads p1)[i := w']\<rparr>"
    by (auto split: option.splits)
  from worker_step_frame[OF ws] have "threads p1 = threads p" by simp
  with i ws p' that show thesis by simp
qed


lemma work_step_run_inv:
  assumes inv: "run_inv n p" and st: "step e (Work i) p = Some (effs, p')"
  shows "run_inv n p'"
proof -
  from st obtain w' p1 where i: "i < length (threads p)"
    and ws: "worker_step e p (threads p ! i) = Some (effs, w', p1)"
    and p': "p' = p1\<lparr>threads := (threads p)[i := w']\<rparr>"
    by (rule step_WorkE)
  let ?w = "threads p ! i"
  note fr = worker_step_frame[OF ws]
  note ck = worker_step_checked[OF ws]
  note ac = worker_step_active[OF ws]
  note mo = worker_step_mono[OF ws]
  have fl: "sum_list (map in_flight (threads p')) + in_flight ?w
              = sum_list (map in_flight (threads p)) + in_flight w'"
    using sum_list_map_update[OF i, of in_flight w'] p' by simp
  have ex: "sum_list (map exited (threads p')) + exited ?w
              = sum_list (map exited (threads p)) + exited w'"
    using sum_list_map_update[OF i, of exited w'] p' by simp
  have le: "in_flight ?w \<le> sum_list (map in_flight (threads p))"
    using i by (simp add: member_le_sum_list)
  have snapw: "holds_ok_snapshot (total p) ?w"
    using inv i by (simp add: run_inv_def)
  have "checked p + int (length (queue p)) + int (in_flight ?w) \<le> total p"
    using inv le by (simp add: run_inv_def)
  with inv snapw have snapw': "holds_ok_snapshot (total p1) w'"
    by (intro worker_step_snapshot[OF ws]) (simp_all add: run_inv_def)
  have snaps: "\<forall>w \<in> set (threads p'). holds_ok_snapshot (total p') w"
  proof
    fix w assume "w \<in> set (threads p')"
    then have "w = w' \<or> w \<in> set (threads p)"
      using p' set_update_subset_insert[of "threads p" i w'] by auto
    then show "holds_ok_snapshot (total p') w"
      using snapw' inv fr p' by (auto simp: run_inv_def)
  qed
  have len: "length (threads p') = nat n" using inv p' by (simp add: run_inv_def)
  have act: "active_threads p' = n - int (sum_list (map exited (threads p')))"
    using inv ac ex p' by (simp add: run_inv_def)
  have cnt: "checked p' + int (length (queue p')) + int (sum_list (map in_flight (threads p'))) = total p'"
    using inv ck fl fr p' by (simp add: run_inv_def)
  have bnd: "0 \<le> checked p' \<and> 0 \<le> normal p' \<and> 0 \<le> blocked p' \<and> normal p' + blocked p' \<le> checked p'"
    using inv mo p' by (simp add: run_inv_def)
  show ?thesis
    unfolding run_inv_def using len act cnt bnd snaps by simp
qed

lemma step_run_inv:
  assumes "run_inv n p" "step e a p = Some (effs, p')"
  shows "run_inv n p'"
proof (cases a)
  case (Work i)
  with assms show ?thesis using work_step_run_inv by simp
qed (use assms in \<open>auto simp: run_inv_def pause_def resume_def stop_def\<close>)

lemma sum_list_replicate_0 [simp]: "sum_list (map f (replicate k x)) = k * f x"
  for f :: "'a \<Rightarrow> nat"
  by (induction k) simp_all

lemma start_run_inv: "run_inv n (start p0 urls n m)"
  by (simp add: run_inv_def start_def Let_def foldl_snoc)

lemma exec_run_inv:
  "run_inv n p \<Longrightarrow> exec e sched p = Some (effs, p') \<Longrightarrow> run_inv n p'"
proof (induction sched arbitrary: p effs)
  case Nil
  then show ?case by simp
next
  case (Cons a sched)
  then show ?case
    by (auto split: option.splits prod.splits dest: step_run_inv)
qed

lemma run_check_effects:
  "x \<in> set (fst (run_check e m u)) \<Longrightarrow> (\<exists>url t. x = HttpGet url t) \<or> (\<exists>s. x = LogMessage s)"
  by (auto simp: run_check_def check_douyin_jump_def check_weibo_jump_def Let_def
           split: sum.splits if_splits)

lemma worker_step_finished:
  assumes "worker_step e p w = Some (effs, w', p1)"
  shows "if w = AtFinally
         then w' = Done \<and> effs = (if active_threads p - 1 \<le> 0 then [Finished] else [])
         else w' \<noteq> Done \<and> Finished \<notin> set effs"
  using assms run_check_effects[of Finished e "mode p"]
  by (cases w) (auto simp: Let_def split: list.splits if_splits prod.splits)

lemma exited_le_1: "exited w \<le> 1"
  by (cases w) simp_all

lemma exited_sum_le: "sum_list (map exited ws) \<le> length ws"
proof (induction ws)
  case Nil
  then show ?case by simp
next
  case (Cons w ws)
  then show ?case using exited_le_1[of w] by simp
qed

lemma all_done_iff: "all_done p \<longleftrightarrow> sum_list (map exited (threads p)) = length (threads p)"
proof -
  have "list_all (\<lambda>w. w = Done) ws \<longleftrightarrow> sum_list (map exited ws) = length ws" for ws
  proof (induction ws)
    case Nil
    then show ?case by simp
  next
    case (Cons w ws)
    then show ?case using exited_sum_le[of ws] by (cases w) auto
  qed
  then show ?thesis by (simp add: all_done_def)
qed

lemma all_done_nth: "all_done p \<Longrightarrow> i < length (threads p) \<Longrightarrow> threads p ! i = Done"
  by (simp add: all_done_def list_all_length)

lemma work_step_finished:
  assumes inv: "run_inv n p" and n: "1 \<le> n" and st: "step e (Work i) p = Some (effs, p')"
  shows "\<not> all_done p"
    and "count_list effs Finished = (if all_done p' then 1 else 0)"
    and "Finished \<in> set effs \<longrightarrow> threads p ! i = AtFinally \<and> active_threads p' = 0"
proof -
  from st obtain w' p1 where i: "i < length (threads p)"
    and ws: "worker_step e p (threads p ! i) = Some (effs, w', p1)"
    and p': "p' = p1\<lparr>threads := (threads p)[i := w']\<rparr>"
    by (rule step_WorkE)
  let ?w = "threads p ! i"
  have wnd: "?w \<noteq> Done" using ws by auto
  with i show nd: "\<not> all_done p" using all_done_nth by blast
  have ex: "sum_list (map exited (threads p')) + exited ?w
              = sum_list (map exited (threads p)) + exited w'"
    using sum_list_map_update[OF i, of exited w'] p' by simp
  have len: "length (threads p') = nat n" "length (threads p) = nat n"
    using inv p' by (simp_all add: run_inv_def)
  have act: "active_threads p = n - int (sum_list (map exited (threads p)))"
    using inv by (simp add: run_inv_def)
  have act': "active_threads p' = n - int (sum_list (map exited (threads p')))"
    using work_step_run_inv[OF inv st] by (simp add: run_inv_def)
  have le': "sum_list (map exited (threads p')) \<le> nat n"
    using exited_sum_le[of "threads p'"] len by simp
  show "count_list effs Finished = (if all_done p' then 1 else 0)"
  proof (cases "?w = AtFinally")
    case True
    with worker_step_finished[OF ws]
    have w': "w' = Done" and effs: "effs = (if active_threads p - 1 \<le> 0 then [Finished] else [])"
      by simp_all
    from ex True w' have "sum_list (map exited (threads p')) = sum_list (map exited (threads p)) + 1"
      by simp
    with act le' n have "active_threads p - 1 \<le> 0 \<longleftrightarrow> sum_list (map exited (threads p')) = nat n"
      by linarith
    with effs len show ?thesis by (simp add: all_done_iff)
  next
    case False
    with worker_step_finished[OF ws] have w': "w' \<noteq> Done" and nf: "Finished \<notin> set effs"
      by simp_all
    from w' i p' have "threads p' ! i \<noteq> Done" by simp
    moreover have "i < length (threads p')" using i p' by simp
    ultimately have "\<not> all_done p'" using all_done_nth by blast
    with nf show ?thesis by simp
  qed
  show "Finished \<in> set effs \<longrightarrow> threads p ! i = AtFinally \<and> active_threads p' = 0"
  proof
    assume f: "Finished \<in> set effs"
    with worker_step_finished[OF ws] have t: "?w = AtFinally"
      by (auto split: if_splits)
    with worker_step_finished[OF ws] f have a: "active_threads p - 1 \<le> 0" and w': "w' = Done"
      by (auto split: if_splits)
    from ex t w' have "sum_list (map exited (threads p')) = sum_list (map exited (threads p)) + 1"
      by simp
    with act act' le' a n have "active_threads p' = 0" by linarith
    with t show "threads p ! i = AtFinally \<and> active_threads p' = 0" by simp
  qed
qed

lemma control_step_threads:
  assumes "\<not> is_work a" "step e a p = Some (effs, p')"
  shows "effs = [] \<and> threads p' = threads p \<and> queue p' = queue p \<and> counters p' = counters p
         \<and> mode p' = mode p \<and> active_threads p' = active_threads p"
  using assms by (cases a) (auto simp: pause_def resume_def stop_def counters_def)

lemma step_finished:
  assumes inv: "run_inv n p" and n: "1 \<le> n" and st: "step e a p = Some (effs, p')"
  shows "count_list effs Finished + done_ind p = done_ind p'"
proof (cases a)
  case (Work i)
  with work_step_finished[OF inv n] st show ?thesis by (simp add: done_ind_def)
next
  case Pause
  with control_step_threads[OF _ st] show ?thesis by (simp add: done_ind_def all_done_def)
next
  case Resume
  with control_step_threads[OF _ st] show ?thesis by (simp add: done_ind_def all_done_def)
next
  case Stop
  with control_step_threads[OF _ st] show ?thesis by (simp add: done_ind_def all_done_def)
qed

lemma exec_finished:
  "run_inv n p \<Longrightarrow> 1 \<le> n \<Longrightarrow> exec e sched p = Some (effs, p')
     \<Longrightarrow> count_list effs Finished + done_ind p = done_ind p'"
proof (induction sched arbitrary: p effs)
  case Nil
  then show ?case by simp
next
  case (Cons a sched)
  from Cons.prems(3) obtain e1 p1 e2 where s1: "step e a p = Some (e1, p1)"
    and s2: "exec e sched p1 = Some (e2, p')" and effs: "effs = e1 @ e2"
    by (auto split: option.splits prod.splits)
  from step_run_inv[OF Cons.prems(1) s1] have inv1: "run_inv n p1" .
  from Cons.IH[OF inv1 Cons.prems(2) s2] step_finished[OF Cons.prems(1,2) s1] effs
  show ?case by simp
qed

lemma start_not_done: "1 \<le> n \<Longrightarrow> done_ind (start p0 urls n m) = 0"
  by (cases "nat n") (auto simp: done_ind_def all_done_def start_def Let_def)


lemma worker_step_rank:
  assumes "worker_step e p w = Some (effs, w', p1)" "\<not> pause_event p \<or> stop_event p"
  shows "8 * length (queue p1) + rank w' < 8 * length (queue p) + rank w"
  using assms
  by (cases w) (auto simp: update_stats_def Let_def split: list.splits if_splits prod.splits)

lemma work_step_remaining:
  assumes st: "step e (Work i) p = Some (effs, p')" and fl: "\<not> pause_event p \<or> stop_event p"
  shows "remaining p' < remaining p" "pause_event p' = pause_event p" "stop_event p' = stop_event p"
proof -
  from st obtain w' p1 where i: "i < length (threads p)"
    and ws: "worker_step e p (threads p ! i) = Some (effs, w', p1)"
    and p': "p' = p1\<lparr>threads := (threads p)[i := w']\<rparr>"
    by (rule step_WorkE)
  have "sum_list (map rank (threads p')) + rank (threads p ! i)
          = sum_list (map rank (threads p)) + rank w'"
    using sum_list_map_update[OF i, of rank w'] p' by simp
  with worker_step_rank[OF ws fl] p' show "remaining p' < remaining p"
    by (simp add: remaining_def)
  from worker_step_frame[OF ws] p'
  show "pause_event p' = pause_event p" "stop_event p' = stop_event p" by simp_all
qed

lemma exec_work_bounded:
  "list_all is_work ws \<Longrightarrow> \<not> pause_event p \<or> stop_event p \<Longrightarrow> exec e ws p = Some (effs, p')
     \<Longrightarrow> length ws + remaining p' \<le> remaining p"
proof (induction ws arbitrary: p effs)
  case Nil
  then show ?case by simp
next
  case (Cons a ws)
  from Cons.prems(1) obtain i where a: "a = Work i" by (cases a) auto
  from Cons.prems(3) a obtain e1 p1 e2 where s1: "step e (Work i) p = Some (e1, p1)"
    and s2: "exec e ws p1 = Some (e2, p')"
    by (auto split: option.splits prod.splits)
  note r = work_step_remaining[OF s1 Cons.prems(2)]
  from r Cons.prems(2) have fl1: "\<not> pause_event p1 \<or> stop_event p1" by simp
  from Cons.prems(1) have "list_all is_work ws" by simp
  from Cons.IH[OF this fl1 s2] r(1) show ?case by simp
qed

lemma worker_step_enabled: "w \<noteq> Done \<Longrightarrow> worker_step e p w \<noteq> None"
  by (cases w) (auto simp: Let_def split: list.splits prod.splits)

lemma progress:
  assumes "\<not> all_done p"
  shows "\<exists>i < length (threads p). step e (Work i) p \<noteq> None"
proof -
  from assms obtain i where i: "i < length (threads p)" and w: "threads p ! i \<noteq> Done"
    by (auto simp: all_done_def list_all_length)
  from worker_step_enabled[OF w, of e p] i have "step e (Work i) p \<noteq> None"
    by (auto split: option.splits)
  with i show ?thesis by blast
qed

lemma step_emits_finished:
  assumes inv: "run_inv n p" and n: "1 \<le> n" and st: "step e a p = Some (effs, p')"
    and f: "Finished \<in> set effs"
  shows "(\<exists>i. a = Work i \<and> i < length (threads p) \<and> threads p ! i = AtFinally)
         \<and> active_threads p' = 0 \<and> all_done p'"
proof (cases "is_work a")
  case True
  then obtain i where a: "a = Work i" by (cases a) auto
  from st a have i: "i < length (threads p)" by (simp split: if_splits)
  from work_step_finished(2,3)[OF inv n st[unfolded a]] f i a
  show ?thesis by (auto simp: count_list_0_iff split: if_splits)
next
  case False
  from control_step_threads[OF False st] f show ?thesis by simp
qed

text \<open>
  C3. In a run started with at least one worker, the completion signal is emitted exactly
  once: the number of \<open>Finished\<close> effects so far is 1 if all workers have exited and 0
  otherwise. It is emitted by the step of a worker in its \<open>finally\<close> block that brings
  \<open>_active_threads\<close> to zero, after which all workers have exited. The run gets there
  whatever the outcomes of the classification calls are: while some worker has not exited
  some worker can take a step, and once \<open>_pause\<close> is clear (or \<open>_stop\<close> is set) the workers
  take at most \<open>remaining p\<close> further steps in any interleaving.
\<close>

theorem finished_exactly_once:
  assumes "1 \<le> n" and "all_done p0" and "exec e sched (start p0 urls n m) = Some (effs, p)"
  shows "count_list effs Finished = (if all_done p then 1 else 0)
    \<and> (all_done p \<longleftrightarrow> active_threads p = 0)
    \<and> (\<forall>a effs1 p1. step e a p = Some (effs1, p1) \<and> Finished \<in> set effs1 \<longrightarrow>
          (\<exists>i. a = Work i \<and> i < length (threads p) \<and> threads p ! i = AtFinally)
          \<and> active_threads p1 = 0 \<and> all_done p1)
    \<and> (\<not> all_done p \<longrightarrow> (\<exists>i < length (threads p). step e (Work i) p \<noteq> None))
    \<and> (\<forall>ws effs' p'. list_all is_work ws \<and> (\<not> pause_event p \<or> stop_event p)
          \<and> exec e ws p = Some (effs', p') \<longrightarrow> length ws \<le> remaining p)"
proof -
  have inv0: "run_inv n (start p0 urls n m)" by (rule start_run_inv)
  from exec_run_inv[OF inv0 assms(3)] have inv: "run_inv n p" .
  from exec_finished[OF inv0 assms(1,3)] start_not_done[OF assms(1)]
  have c1: "count_list effs Finished = (if all_done p then 1 else 0)"
    by (simp add: done_ind_def)
  from inv assms(1) have c2: "all_done p \<longleftrightarrow> active_threads p = 0"
    by (auto simp: run_inv_def all_done_iff)
  have c3: "\<forall>a effs1 p1. step e a p = Some (effs1, p1) \<and> Finished \<in> set effs1 \<longrightarrow>
          (\<exists>i. a = Work i \<and> i < length (threads p) \<and> threads p ! i = AtFinally)
          \<and> active_threads p1 = 0 \<and> all_done p1"
    using step_emits_finished[OF inv assms(1)] by blast
  have c4: "\<not> all_done p \<longrightarrow> (\<exists>i < length (threads p). step e (Work i) p \<noteq> None)"
    using progress by blast
  have c5: "\<forall>ws effs' p'. list_all is_work ws \<and> (\<not> pause_event p \<or> stop_event p)
          \<and> exec e ws p = Some (effs', p') \<longrightarrow> length ws \<le> remaining p"
    using exec_work_bounded by fastforce
  from c1 c2 c3 c4 c5 show ?thesis by blast
qed


lemmas run_defs = start_def init_def Let_def env_of_def run_check_def check_douyin_jump_def
  check_weibo_jump_def dict_get_def update_stats_def pause_def resume_def stop_def
  status_text_def all_done_def counters_def

lemma replicate_numeral: "replicate (numeral k) x = x # replicate (pred_numeral k) x"
  by (simp add: numeral_eq_Suc)

lemma list_update_Cons_numeral: "(x # xs)[numeral k := y] = x # xs[pred_numeral k := y]"
  by (simp add: numeral_eq_Suc)

theorem finished_exactly_once_witness:
  "(1::int) \<le> 2 \<and> all_done init
   \<and> exec (env_of (RequestException (ascii ''timeout'')))
        [Work 0, Work 1, Work 0, Work 1, Work 0, Work 1, Work 1,
         Work 0, Work 0, Work 0, Work 0, Work 0, Work 0, Work 0, Work 0, Work 0]
        (start init [ascii ''a.com''] 2 (ascii ''douyin'')) \<noteq> None
   \<and> count_list (fst (the (exec (env_of (RequestException (ascii ''timeout'')))
        [Work 0, Work 1, Work 0, Work 1, Work 0, Work 1, Work 1,
         Work 0, Work 0, Work 0, Work 0, Work 0, Work 0, Work 0, Work 0, Work 0]
        (start init [ascii ''a.com''] 2 (ascii ''douyin''))))) Finished = 1
   \<and> all_done (snd (the (exec (env_of (RequestException (ascii ''timeout'')))
        [Work 0, Work 1, Work 0, Work 1, Work 0, Work 1, Work 1,
         Work 0, Work 0, Work 0, Work 0, Work 0, Work 0, Work 0, Work 0, Work 0]
        (start init [ascii ''a.com''] 2 (ascii ''douyin'')))))"
proof -
  let ?e = "env_of (RequestException (ascii ''timeout''))"
  let ?s = "[Work 0, Work 1, Work 0, Work 1, Work 0, Work 1, Work 1,
         Work 0, Work 0, Work 0, Work 0, Work 0, Work 0, Work 0, Work 0, Work 0]"
  let ?r = "exec ?e ?s (start init [ascii ''a.com''] 2 (ascii ''douyin''))"
  have n: "(1::int) \<le> 2" by simp
  have i: "all_done init" by (simp add: all_done_def init_def)
  have ne: "?r \<noteq> None" by (simp add: run_defs replicate_numeral list_update_Cons_numeral)
  then have ex: "?r = Some (fst (the ?r), snd (the ?r))" by simp
  have d: "all_done (snd (the ?r))"
    by (simp add: run_defs replicate_numeral list_update_Cons_numeral)
  from finished_exactly_once[OF n i ex] d
  have c: "count_list (fst (the ?r)) Finished = 1" by simp
  from n i ne c d show ?thesis by (intro conjI)
qed


lemma worker_step_stats_effect:
  assumes "worker_step e p w = Some (effs, w', p1)" "holds_ok_snapshot (total p) w"
    "StatsUpdate t c k b \<in> set effs"
  shows "snapshot_ok (total p) (t, c, k, b)"
  using assms run_check_effects[of "StatsUpdate t c k b" e "mode p"]
  by (cases w) (auto simp: Let_def split: list.splits if_splits prod.splits)

lemma step_stats_effect:
  assumes inv: "run_inv n p" and st: "step e a p = Some (effs, p')"
  shows "total p' = total p"
    and "StatsUpdate t c k b \<in> set effs \<Longrightarrow> snapshot_ok (total p) (t, c, k, b)"
proof -
  show "total p' = total p"
  proof (cases a)
    case (Work i)
    from st[unfolded Work] obtain w' p1 where
      ws: "worker_step e p (threads p ! i) = Some (effs, w', p1)"
      and p': "p' = p1\<lparr>threads := (threads p)[i := w']\<rparr>"
      by (rule step_WorkE)
    from worker_step_frame[OF ws] p' show ?thesis by simp
  qed (use st in \<open>auto simp: pause_def resume_def stop_def\<close>)
  show "snapshot_ok (total p) (t, c, k, b)" if su: "StatsUpdate t c k b \<in> set effs"
  proof (cases a)
    case (Work i)
    from st[unfolded Work] obtain w' p1 where i: "i < length (threads p)"
      and ws: "worker_step e p (threads p ! i) = Some (effs, w', p1)"
      by (rule step_WorkE)
    from inv i have "holds_ok_snapshot (total p) (threads p ! i)"
      by (simp add: run_inv_def)
    from worker_step_stats_effect[OF ws this su] show ?thesis .
  qed (use st su in \<open>auto simp: pause_def resume_def stop_def\<close>)
qed

lemma exec_stats_effects:
  "run_inv n p \<Longrightarrow> exec e sched p = Some (effs, p')
     \<Longrightarrow> total p' = total p
         \<and> (\<forall>t c k b. StatsUpdate t c k b \<in> set effs \<longrightarrow> snapshot_ok (total p) (t, c, k, b))"
proof (induction sched arbitrary: p effs)
  case Nil
  then show ?case by simp
next
  case (Cons a sched)
  from Cons.prems(2) obtain e1 p1 e2 where s1: "step e a p = Some (e1, p1)"
    and s2: "exec e sched p1 = Some (e2, p')" and effs: "effs = e1 @ e2"
    by (auto split: option.splits prod.splits)
  from step_run_inv[OF Cons.prems(1) s1] have inv1: "run_inv n p1" .
  from Cons.IH[OF inv1 s2] step_stats_effect[OF Cons.prems(1) s1] effs
  show ?case by auto
qed

lemma step_checked_mono:
  assumes "step e a p = Some (effs, p')"
  shows "checked p \<le> checked p'"
proof (cases a)
  case (Work i)
  from assms[unfolded Work] obtain w' p1 where
    ws: "worker_step e p (threads p ! i) = Some (effs, w', p1)"
    and p': "p' = p1\<lparr>threads := (threads p)[i := w']\<rparr>"
    by (rule step_WorkE)
  from worker_step_mono[OF ws] p' show ?thesis by simp
qed (use assms in \<open>auto simp: pause_def resume_def stop_def\<close>)

lemma exec_checked_mono:
  "exec e sched p = Some (effs, p') \<Longrightarrow> checked p \<le> checked p'"
proof (induction sched arbitrary: p effs)
  case Nil
  then show ?case by simp
next
  case (Cons a sched)
  from Cons.prems obtain e1 p1 e2 where s1: "step e a p = Some (e1, p1)"
    and s2: "exec e sched p1 = Some (e2, p')"
    by (auto split: option.splits prod.splits)
  from Cons.IH[OF s2] step_checked_mono[OF s1] show ?case by simp
qed

lemma exec_append_dest:
  "exec e (s1 @ s2) p = Some (effs, p') \<Longrightarrow> exec e s1 p = Some (effs1, p1)
     \<Longrightarrow> \<exists>effs2. exec e s2 p1 = Some (effs2, p') \<and> effs = effs1 @ effs2"
proof (induction s1 arbitrary: p effs effs1)
  case Nil
  then show ?case by simp
next
  case (Cons a s1)
  from Cons.prems(2) obtain e1 q e2 where s1: "step e a p = Some (e1, q)"
    and s2: "exec e s1 q = Some (e2, p1)" and effs1: "effs1 = e1 @ e2"
    by (auto split: option.splits prod.splits)
  from Cons.prems(1) s1 obtain e3 where s3: "exec e (s1 @ s2) q = Some (e3, p')"
    and effs: "effs = e1 @ e3"
    by (auto split: option.splits prod.splits)
  from Cons.IH[OF s3 s2] effs effs1 show ?case by auto
qed

lemma worker_step_unstopped:
  assumes "worker_step e p w = Some (effs, w', p1)" "\<not> stop_event p"
  shows "((w' = AtFinally \<or> w' = Done) \<longrightarrow> w = AtFinally \<or> queue p = [])
         \<and> (queue p = [] \<longrightarrow> queue p1 = [])"
  using assms
  by (cases w) (auto simp: update_stats_def Let_def split: list.splits if_splits prod.splits)

lemma step_unstopped:
  assumes inv: "unstopped_inv p" and a: "a \<noteq> Stop" and st: "step e a p = Some (effs, p')"
  shows "unstopped_inv p'"
proof (cases a)
  case (Work i)
  from st[unfolded Work] obtain w' p1 where i: "i < length (threads p)"
    and ws: "worker_step e p (threads p ! i) = Some (effs, w', p1)"
    and p': "p' = p1\<lparr>threads := (threads p)[i := w']\<rparr>"
    by (rule step_WorkE)
  from inv have ns: "\<not> stop_event p" by (simp add: unstopped_inv_def)
  note u = worker_step_unstopped[OF ws ns]
  note fr = worker_step_frame[OF ws]
  have "queue p' = []" if ex: "\<exists>w \<in> set (threads p'). w = AtFinally \<or> w = Done"
  proof -
    from ex p' have "(w' = AtFinally \<or> w' = Done) \<or> (\<exists>w \<in> set (threads p). w = AtFinally \<or> w = Done)"
      using set_update_subset_insert[of "threads p" i w'] by auto
    moreover have "threads p ! i \<in> set (threads p)" using i by simp
    ultimately have "queue p = []" using u inv by (auto simp: unstopped_inv_def)
    with u p' show ?thesis by simp
  qed
  with ns fr p' show ?thesis by (simp add: unstopped_inv_def)
qed (use assms in \<open>auto simp: unstopped_inv_def pause_def resume_def\<close>)

lemma exec_unstopped:
  "unstopped_inv p \<Longrightarrow> Stop \<notin> set sched \<Longrightarrow> exec e sched p = Some (effs, p')
     \<Longrightarrow> unstopped_inv p'"
proof (induction sched arbitrary: p effs)
  case Nil
  then show ?case by simp
next
  case (Cons a sched)
  from Cons.prems(3) obtain e1 p1 e2 where s1: "step e a p = Some (e1, p1)"
    and s2: "exec e sched p1 = Some (e2, p')"
    by (auto split: option.splits prod.splits)
  from Cons.prems(2) have a: "a \<noteq> Stop" and r: "Stop \<notin> set sched" by auto
  from Cons.IH[OF step_unstopped[OF Cons.prems(1) a s1] r s2] show ?case .
qed

lemma start_unstopped: "unstopped_inv (start p0 urls n m)"
  by (auto simp: unstopped_inv_def start_def Let_def)

lemma in_flight_all_done: "all_done p \<Longrightarrow> sum_list (map in_flight (threads p)) = 0"
  by (auto simp: all_done_def list_all_iff)

lemma all_done_checked_total:
  assumes "run_inv n p" "unstopped_inv p" "1 \<le> n" "all_done p"
  shows "checked p = total p \<and> queue p = []"
proof -
  from assms(1,3) have "threads p \<noteq> []" by (auto simp: run_inv_def)
  then obtain w where w: "w \<in> set (threads p)" by (cases "threads p") auto
  with assms(4) have "w = Done" by (simp add: all_done_def list_all_iff)
  with w assms(2) have q: "queue p = []" by (auto simp: unstopped_inv_def)
  with assms(1) in_flight_all_done[OF assms(4)] show ?thesis by (simp add: run_inv_def)
qed

lemma exec_no_threads:
  "threads p = [] \<Longrightarrow> exec e sched p = Some (effs, p') \<Longrightarrow> effs = [] \<and> threads p' = []"
proof (induction sched arbitrary: p effs)
  case Nil
  then show ?case by simp
next
  case (Cons a sched)
  from Cons.prems(2) obtain e1 p1 e2 where s1: "step e a p = Some (e1, p1)"
    and s2: "exec e sched p1 = Some (e2, p')" and effs: "effs = e1 @ e2"
    by (auto split: option.splits prod.splits)
  from s1 Cons.prems(1) have "e1 = [] \<and> threads p1 = []"
    by (cases a) (auto simp: pause_def resume_def stop_def)
  with Cons.IH[OF _ s2] effs show ?case by simp
qed

lemma finished_all_done:
  assumes "exec e sched (start p0 urls n m) = Some (effs, p)" "Finished \<in> set effs"
  shows "1 \<le> n \<and> all_done p"
proof -
  have n: "1 \<le> n"
  proof (rule ccontr)
    assume "\<not> 1 \<le> n"
    then have "threads (start p0 urls n m) = []" by (simp add: start_def Let_def)
    from exec_no_threads[OF this assms(1)] assms(2) show False by simp
  qed
  from exec_finished[OF start_run_inv n assms(1)] start_not_done[OF n] assms(2)
  have "all_done p" by (auto simp: done_ind_def count_list_0_iff split: if_splits)
  with n show ?thesis by simp
qed

text \<open>
  C2, as the code has it. In every state of a run and in every snapshot the pool emits,
  \<open>0 \<le> checked \<le> total\<close> and \<open>normal + blocked \<le> checked\<close>; \<open>total\<close> stays the number of
  tasks; \<open>checked\<close> never decreases along the run; and once the completion signal has
  been emitted in a run in which \<open>stop\<close> was not called, \<open>checked = total\<close>.
\<close>

theorem counters_invariant:
  assumes "all_done p0" and "exec e sched (start p0 urls n m) = Some (effs, p)"
  shows "0 \<le> checked p \<and> checked p \<le> total p \<and> normal p + blocked p \<le> checked p
    \<and> total p = int (length urls)
    \<and> (\<forall>t c k b. StatsUpdate t c k b \<in> set effs \<longrightarrow>
          t = total p \<and> 0 \<le> c \<and> c \<le> t \<and> k + b \<le> c)
    \<and> (\<forall>s1 s2 effs1 p1. sched = s1 @ s2 \<and> exec e s1 (start p0 urls n m) = Some (effs1, p1)
          \<longrightarrow> checked p1 \<le> checked p)
    \<and> (Stop \<notin> set sched \<and> Finished \<in> set effs \<longrightarrow> checked p = total p)"
proof -
  have inv0: "run_inv n (start p0 urls n m)" by (rule start_run_inv)
  from exec_run_inv[OF inv0 assms(2)] have inv: "run_inv n p" .
  from exec_stats_effects[OF inv0 assms(2)]
  have tot: "total p = total (start p0 urls n m)"
    and snaps: "\<forall>t c k b. StatsUpdate t c k b \<in> set effs
                  \<longrightarrow> snapshot_ok (total (start p0 urls n m)) (t, c, k, b)"
    by simp_all
  have c1: "0 \<le> checked p \<and> checked p \<le> total p \<and> normal p + blocked p \<le> checked p"
    using inv by (auto simp: run_inv_def)
  have c2: "total p = int (length urls)" using tot by (simp add: start_def Let_def)
  have c3: "\<forall>t c k b. StatsUpdate t c k b \<in> set effs \<longrightarrow>
          t = total p \<and> 0 \<le> c \<and> c \<le> t \<and> k + b \<le> c"
    using snaps tot by (auto simp: snapshot_ok_def)
  have c4: "\<forall>s1 s2 effs1 p1. sched = s1 @ s2 \<and> exec e s1 (start p0 urls n m) = Some (effs1, p1)
          \<longrightarrow> checked p1 \<le> checked p"
    using exec_append_dest assms(2) exec_checked_mono by blast
  have c5: "Stop \<notin> set sched \<and> Finished \<in> set effs \<longrightarrow> checked p = total p"
  proof
    assume h: "Stop \<notin> set sched \<and> Finished \<in> set effs"
    from finished_all_done[OF assms(2)] h have n: "1 \<le> n" and ad: "all_done p" by simp_all
    from exec_unstopped[OF start_unstopped _ assms(2)] h have "unstopped_inv p" by simp
    from all_done_checked_total[OF inv this n ad] show "checked p = total p" by simp
  qed
  from c1 c2 c3 c4 c5 show ?thesis by blast
qed


theorem counters_invariant_witness:
  "all_done init
   \<and> exec (env_of (Response \<lparr>status_code = 200, headers = Map.empty, resp_text = ascii ''hello''\<rparr>))
        [Work 0, Pause, Work 0, Resume, Work 0, Work 0, Work 0, Work 0, Work 0, Work 0, Work 0,
         Work 0, Work 0, Work 0, Work 0]
        (start init [ascii ''a.com''] 1 (ascii ''douyin'')) \<noteq> None
   \<and> Stop \<notin> set [Work 0, Pause, Work 0, Resume, Work 0, Work 0, Work 0, Work 0, Work 0, Work 0,
         Work 0, Work 0, Work 0, Work 0, Work 0]
   \<and> Finished \<in> set (fst (the (exec (env_of (Response \<lparr>status_code = 200, headers = Map.empty,
             resp_text = ascii ''hello''\<rparr>))
        [Work 0, Pause, Work 0, Resume, Work 0, Work 0, Work 0, Work 0, Work 0, Work 0, Work 0,
         Work 0, Work 0, Work 0, Work 0]
        (start init [ascii ''a.com''] 1 (ascii ''douyin'')))))
   \<and> StatsUpdate 1 1 0 0 \<in> set (fst (the (exec (env_of (Response \<lparr>status_code = 200,
             headers = Map.empty, resp_text = ascii ''hello''\<rparr>))
        [Work 0, Pause, Work 0, Resume, Work 0, Work 0, Work 0, Work 0, Work 0, Work 0, Work 0,
         Work 0, Work 0, Work 0, Work 0]
        (start init [ascii ''a.com''] 1 (ascii ''douyin'')))))
   \<and> checked (snd (the (exec (env_of (Response \<lparr>status_code = 200, headers = Map.empty,
             resp_text = ascii ''hello''\<rparr>))
        [Work 0, Pause, Work 0, Resume, Work 0, Work 0, Work 0, Work 0, Work 0, Work 0, Work 0,
         Work 0, Work 0, Work 0, Work 0]
        (start init [ascii ''a.com''] 1 (ascii ''douyin'')))))
      = total (snd (the (exec (env_of (Response \<lparr>status_code = 200, headers = Map.empty,
             resp_text = ascii ''hello''\<rparr>))
        [Work 0, Pause, Work 0, Resume, Work 0, Work 0, Work 0, Work 0, Work 0, Work 0, Work 0,
         Work 0, Work 0, Work 0, Work 0]
        (start init [ascii ''a.com''] 1 (ascii ''douyin'')))))"
proof -
  let ?e = "env_of (Response \<lparr>status_code = 200, headers = Map.empty, resp_text = ascii ''hello''\<rparr>)"
  let ?s = "[Work 0, Pause, Work 0, Resume, Work 0, Work 0, Work 0, Work 0, Work 0, Work 0, Work 0,
         Work 0, Work 0, Work 0, Work 0]"
  let ?r = "exec ?e ?s (start init [ascii ''a.com''] 1 (ascii ''douyin''))"
  have i: "all_done init" by (simp add: all_done_def init_def)
  have ev: "?r = Some ([HttpGet (DOUYIN_CHECK_URL_TEMPLATE (ascii ''a.com'')) 10,
                ResultReady (ascii ''a.com'') (VStr (ascii ''unknown'')),
                StatsUpdate 1 1 0 0,
                LogMessage (ascii ''a.com -> '' @ [0x672A, 0x77E5]),
                Finished],
           \<lparr>queue = [], threads = [Done], stop_event = False, pause_event = False,
            total = 1, checked = 1, normal = 0, blocked = 0, active_threads = 0,
            mode = ascii ''douyin''\<rparr>)"
    by (simp add: run_defs DOUYIN_BLOCK_KEYWORDS_def sublist_code prefix_code ascii_def)
  then have ex: "?r = Some (fst (the ?r), snd (the ?r))" by simp
  have ne: "?r \<noteq> None" using ev by simp
  have ns: "Stop \<notin> set ?s" by simp
  have f: "Finished \<in> set (fst (the ?r))" using ev by simp
  have su: "StatsUpdate 1 1 0 0 \<in> set (fst (the ?r))" using ev by simp
  from counters_invariant[OF i ex] ns f
  have c: "checked (snd (the ?r)) = total (snd (the ?r))" by blast
  from i ne ns f su c show ?thesis by (intro conjI)
qed

text \<open>
  The claim as stated fails when \<open>stop\<close> is called: the single worker exits at the head of
  its loop and emits the completion signal with \<open>checked = 0\<close> and \<open>total = 1\<close>.
\<close>

theorem finished_after_stop_counterexample:
  "exec (env_of (Response \<lparr>status_code = 200, headers = Map.empty, resp_text = ascii ''hello''\<rparr>))
        [Stop, Work 0, Work 0]
        (start init [ascii ''a.com''] 1 (ascii ''douyin''))
   = Some ([Finished],
           \<lparr>queue = [ascii ''a.com''], threads = [Done], stop_event = True, pause_event = False,
            total = 1, checked = 0, normal = 0, blocked = 0, active_threads = 0,
            mode = ascii ''douyin''\<rparr>)"
  by (simp add: run_defs)










text \<open>
  Once \<open>_stop\<close> is set it stays set, and the queue loses at most one task for each
  worker that was between its loop-head test and its pop.
\<close>

lemma worker_step_after_stop:
  assumes "worker_step e p w = Some (effs, w', p1)" "stop_event p"
  shows "length (queue p) + may_pop w' \<le> length (queue p1) + may_pop w"
  using assms
  by (cases w) (auto simp: update_stats_def Let_def split: list.splits if_splits prod.splits)

lemma step_after_stop:
  assumes st: "step e a p = Some (effs, p')" and sp: "stop_event p"
  shows "stop_event p'
         \<and> length (queue p) + sum_list (map may_pop (threads p'))
             \<le> length (queue p') + sum_list (map may_pop (threads p))"
proof (cases a)
  case (Work i)
  from st[unfolded Work] obtain w' p1 where i: "i < length (threads p)"
    and ws: "worker_step e p (threads p ! i) = Some (effs, w', p1)"
    and p': "p' = p1\<lparr>threads := (threads p)[i := w']\<rparr>"
    by (rule step_WorkE)
  have "sum_list (map may_pop (threads p')) + may_pop (threads p ! i)
          = sum_list (map may_pop (threads p)) + may_pop w'"
    using sum_list_map_update[OF i, of may_pop w'] p' by simp
  with worker_step_after_stop[OF ws sp] worker_step_frame[OF ws] sp p'
  show ?thesis by simp
qed (use assms in \<open>auto simp: pause_def resume_def stop_def\<close>)

lemma after_stop_at_most_one_pop:
  "stop_event p \<Longrightarrow> exec e sched p = Some (effs, p')
     \<Longrightarrow> length (queue p) \<le> length (queue p') + sum_list (map may_pop (threads p))"
proof (induction sched arbitrary: p effs)
  case Nil
  then show ?case by simp
next
  case (Cons a sched)
  from Cons.prems(2) obtain e1 p1 e2 where s1: "step e a p = Some (e1, p1)"
    and s2: "exec e sched p1 = Some (e2, p')"
    by (auto split: option.splits prod.splits)
  from step_after_stop[OF s1 Cons.prems(1)] Cons.IH[OF _ s2] show ?case by simp
qed

text \<open>
  C5 at a failing input. One worker, two tasks; the pool is paused, the worker reaches its
  pause wait, and \<open>stop\<close> is called while no classification is in flight (second run
  below: both tasks are queued, \<open>checked = 0\<close>). The worker leaves the wait, and without
  looking at \<open>_stop\<close> again it pops the first task, sends the request and counts it: the run
  ends with \<open>checked = 1\<close>.
\<close>

theorem stop_while_paused_classifies_queued_task:
  "exec (env_of (Response \<lparr>status_code = 200, headers = Map.empty, resp_text = ascii ''hello''\<rparr>))
        [Pause, Work 0, Work 0, Stop, Work 0, Work 0, Work 0, Work 0, Work 0, Work 0, Work 0,
         Work 0, Work 0]
        (start init [ascii ''a.com'', ascii ''b.com''] 1 (ascii ''douyin''))
   = Some ([HttpGet (DOUYIN_CHECK_URL_TEMPLATE (ascii ''a.com'')) 10,
            ResultReady (ascii ''a.com'') (VStr (ascii ''unknown'')),
            StatsUpdate 2 1 0 0,
            LogMessage (ascii ''a.com -> '' @ [0x672A, 0x77E5]),
            Finished],
           \<lparr>queue = [ascii ''b.com''], threads = [Done], stop_event = True, pause_event = False,
            total = 2, checked = 1, normal = 0, blocked = 0, active_threads = 0,
            mode = ascii ''douyin''\<rparr>)
   \<and> exec (env_of (Response \<lparr>status_code = 200, headers = Map.empty, resp_text = ascii ''hello''\<rparr>))
        [Pause, Work 0, Work 0, Stop]
        (start init [ascii ''a.com'', ascii ''b.com''] 1 (ascii ''douyin''))
   = Some ([],
           \<lparr>queue = [ascii ''a.com'', ascii ''b.com''], threads = [AtPauseWait],
            stop_event = True, pause_event = False,
            total = 2, checked = 0, normal = 0, blocked = 0, active_threads = 1,
            mode = ascii ''douyin''\<rparr>)"
  by (simp add: run_defs DOUYIN_BLOCK_KEYWORDS_def sublist_code prefix_code ascii_def)


lemma worker_step_empty:
  assumes "worker_step e p w = Some (effs, w', p1)" "queue p = []" "idle_point w"
  shows "queue p1 = [] \<and> counters p1 = counters p \<and> idle_point w' \<and> set effs \<subseteq> {Finished}
         \<and> (w = AtPop \<longrightarrow> w' = AtFinally \<and> effs = [] \<and> p1 = p)"
  using assms
  by (cases w) (auto simp: counters_def Let_def split: if_splits)

lemma step_empty:
  assumes inv: "empty_run_inv p" and st: "step e a p = Some (effs, p')"
  shows "empty_run_inv p' \<and> set effs \<subseteq> {Finished}"
proof (cases a)
  case (Work i)
  from st[unfolded Work] obtain w' p1 where i: "i < length (threads p)"
    and ws: "worker_step e p (threads p ! i) = Some (effs, w', p1)"
    and p': "p' = p1\<lparr>threads := (threads p)[i := w']\<rparr>"
    by (rule step_WorkE)
  from inv i have q: "queue p = []" and iw: "idle_point (threads p ! i)"
    by (simp_all add: empty_run_inv_def)
  note r = worker_step_empty[OF ws q iw]
  have "\<forall>w \<in> set (threads p'). idle_point w"
  proof
    fix w assume "w \<in> set (threads p')"
    then have "w = w' \<or> w \<in> set (threads p)"
      using p' set_update_subset_insert[of "threads p" i w'] by auto
    then show "idle_point w" using r inv by (auto simp: empty_run_inv_def)
  qed
  with r inv p' show ?thesis by (simp add: empty_run_inv_def counters_def)
qed (use assms in \<open>auto simp: empty_run_inv_def counters_def pause_def resume_def stop_def\<close>)

lemma exec_empty:
  "empty_run_inv p \<Longrightarrow> exec e sched p = Some (effs, p')
     \<Longrightarrow> empty_run_inv p' \<and> set effs \<subseteq> {Finished}"
proof (induction sched arbitrary: p effs)
  case Nil
  then show ?case by simp
next
  case (Cons a sched)
  from Cons.prems(2) obtain e1 p1 e2 where s1: "step e a p = Some (e1, p1)"
    and s2: "exec e sched p1 = Some (e2, p')" and effs: "effs = e1 @ e2"
    by (auto split: option.splits prod.splits)
  from step_empty[OF Cons.prems(1) s1] Cons.IH[OF _ s2] effs
  show ?case by auto
qed

lemma start_empty: "empty_run_inv (start p0 [] n m)"
  by (simp add: empty_run_inv_def start_def Let_def counters_def)

lemma idle_rank: "idle_point w \<Longrightarrow> rank w \<le> 4"
  by (cases w) simp_all

lemma idle_rank_sum: "\<forall>w \<in> set ws. idle_point w \<Longrightarrow> sum_list (map rank ws) \<le> 4 * length ws"
proof (induction ws)
  case Nil
  then show ?case by simp
next
  case (Cons w ws)
  then show ?case using idle_rank[of w] by simp
qed

lemma empty_remaining:
  assumes "empty_run_inv p" "run_inv n p"
  shows "remaining p \<le> 4 * nat n"
  using assms idle_rank_sum[of "threads p"]
  by (simp add: empty_run_inv_def run_inv_def remaining_def)

lemma idle_point_cases:
  "idle_point w \<longleftrightarrow> w \<in> {AtLoopHead, AtPauseWait, AtPop, AtFinally, Done}"
  by (cases w) simp_all

text \<open>
  C9. In a run started with an empty task list and at least one worker, the queue is
  empty throughout, so a worker that attempts a pop goes straight to its exit and no
  worker ever holds a task; no request is made and no result, stats or log signal is
  emitted (the only effect is the completion signal); the counters stay (0, 0, 0, 0); the
  completion signal is emitted exactly once, namely when all workers have exited, which
  takes at most four steps per worker once the pool is not paused.
\<close>

theorem empty_task_list_run:
  assumes "1 \<le> n" and "all_done p0" and "exec e sched (start p0 [] n m) = Some (effs, p)"
  shows "set effs \<subseteq> {Finished}
    \<and> count_list effs Finished = (if all_done p then 1 else 0)
    \<and> counters p = (0, 0, 0, 0) \<and> queue p = []
    \<and> (\<forall>w \<in> set (threads p). w \<in> {AtLoopHead, AtPauseWait, AtPop, AtFinally, Done})
    \<and> (\<forall>i < length (threads p). threads p ! i = AtPop \<longrightarrow>
          step e (Work i) p = Some ([], p\<lparr>threads := (threads p)[i := AtFinally]\<rparr>))
    \<and> (\<not> all_done p \<longrightarrow> (\<exists>i < length (threads p). step e (Work i) p \<noteq> None))
    \<and> (\<forall>ws effs' p'. list_all is_work ws \<and> (\<not> pause_event p \<or> stop_event p)
          \<and> exec e ws p = Some (effs', p') \<longrightarrow> length ws \<le> 4 * nat n)"
proof -
  from exec_empty[OF start_empty assms(3)]
  have inv: "empty_run_inv p" and c1: "set effs \<subseteq> {Finished}" by simp_all
  from exec_run_inv[OF start_run_inv assms(3)] have rinv: "run_inv n p" .
  from exec_finished[OF start_run_inv assms(1,3)] start_not_done[OF assms(1)]
  have c2: "count_list effs Finished = (if all_done p then 1 else 0)"
    by (simp add: done_ind_def)
  from inv have c3: "counters p = (0, 0, 0, 0) \<and> queue p = []"
    by (simp add: empty_run_inv_def)
  from inv have c4: "\<forall>w \<in> set (threads p). w \<in> {AtLoopHead, AtPauseWait, AtPop, AtFinally, Done}"
    using idle_point_cases by (auto simp: empty_run_inv_def)
  have c5: "\<forall>i < length (threads p). threads p ! i = AtPop \<longrightarrow>
          step e (Work i) p = Some ([], p\<lparr>threads := (threads p)[i := AtFinally]\<rparr>)"
    using c3 by simp
  have c6: "\<not> all_done p \<longrightarrow> (\<exists>i < length (threads p). step e (Work i) p \<noteq> None)"
    using progress by blast
  have c7: "\<forall>ws effs' p'. list_all is_work ws \<and> (\<not> pause_event p \<or> stop_event p)
          \<and> exec e ws p = Some (effs', p') \<longrightarrow> length ws \<le> 4 * nat n"
  proof (intro allI impI)
    fix ws effs' p'
    assume h: "list_all is_work ws \<and> (\<not> pause_event p \<or> stop_event p)
          \<and> exec e ws p = Some (effs', p')"
    then have "length ws + remaining p' \<le> remaining p" using exec_work_bounded by blast
    with empty_remaining[OF inv rinv] show "length ws \<le> 4 * nat n" by simp
  qed
  from c1 c2 c3 c4 c5 c6 c7 show ?thesis by blast
qed

theorem empty_task_list_run_witness:
  "(1::int) \<le> 2 \<and> all_done init
   \<and> exec (env_of (RequestException (ascii ''timeout'')))
        [Work 0, Work 1, Work 1, Work 0, Work 0, Work 1, Work 0, Work 1]
        (start init [] 2 (ascii ''douyin''))
      = Some ([Finished],
           \<lparr>queue = [], threads = [Done, Done], stop_event = False, pause_event = False,
            total = 0, checked = 0, normal = 0, blocked = 0, active_threads = 0,
            mode = ascii ''douyin''\<rparr>)
   \<and> count_list [Finished] Finished = 1"
proof -
  let ?e = "env_of (RequestException (ascii ''timeout''))"
  let ?s = "[Work 0, Work 1, Work 1, Work 0, Work 0, Work 1, Work 0, Work 1]"
  let ?p = "\<lparr>queue = [], threads = [Done, Done], stop_event = False, pause_event = False,
            total = 0, checked = 0, normal = 0, blocked = 0, active_threads = 0,
            mode = ascii ''douyin''\<rparr>"
  have n: "(1::int) \<le> 2" by simp
  have i: "all_done init" by (simp add: all_done_def init_def)
  have ex: "exec ?e ?s (start init [] 2 (ascii ''douyin'')) = Some ([Finished], ?p)"
    by (simp add: run_defs replicate_numeral list_update_Cons_numeral)
  have d: "all_done ?p" by (simp add: all_done_def)
  from empty_task_list_run[OF n i ex] d
  have c: "count_list [Finished] Finished = 1" by presburger
  from n i ex c show ?thesis by (intro conjI)
qed


lemma worker_step_normal:
  assumes "worker_step e p w = Some (effs, w', p1)"
  shows "normal p1 + int (length (filter (\<lambda>u. snd (run_check e (mode p) u) = VStr (ascii ''ok'')) (queue p1)))
           + int (pending e (mode p) (VStr (ascii ''ok'')) w')
         = normal p + int (length (filter (\<lambda>u. snd (run_check e (mode p) u) = VStr (ascii ''ok'')) (queue p)))
           + int (pending e (mode p) (VStr (ascii ''ok'')) w)"
  using assms
  by (cases w) (auto simp: update_stats_def Let_def split: list.splits if_splits prod.splits)

lemma worker_step_blocked:
  assumes "worker_step e p w = Some (effs, w', p1)"
  shows "blocked p1 + int (length (filter (\<lambda>u. snd (run_check e (mode p) u) = VStr (ascii ''blocked'')) (queue p1)))
           + int (pending e (mode p) (VStr (ascii ''blocked'')) w')
         = blocked p + int (length (filter (\<lambda>u. snd (run_check e (mode p) u) = VStr (ascii ''blocked'')) (queue p)))
           + int (pending e (mode p) (VStr (ascii ''blocked'')) w)"
  using assms
  by (cases w) (auto simp: update_stats_def Let_def split: list.splits if_splits prod.splits)

lemma step_tally:
  assumes st: "step e a p = Some (effs, p')"
  shows "normal p' + int (tally e (VStr (ascii ''ok'')) p')
           = normal p + int (tally e (VStr (ascii ''ok'')) p)
         \<and> blocked p' + int (tally e (VStr (ascii ''blocked'')) p')
           = blocked p + int (tally e (VStr (ascii ''blocked'')) p)"
proof (cases a)
  case (Work i)
  from st[unfolded Work] obtain w' p1 where i: "i < length (threads p)"
    and ws: "worker_step e p (threads p ! i) = Some (effs, w', p1)"
    and p': "p' = p1\<lparr>threads := (threads p)[i := w']\<rparr>"
    by (rule step_WorkE)
  note fr = worker_step_frame[OF ws]
  have u: "sum_list (map (pending e (mode p) s) (threads p')) + pending e (mode p) s (threads p ! i)
          = sum_list (map (pending e (mode p) s) (threads p)) + pending e (mode p) s w'" for s
    using sum_list_map_update[OF i, of "pending e (mode p) s" w'] p' by simp
  from worker_step_normal[OF ws] worker_step_blocked[OF ws]
    u[of "VStr (ascii ''ok'')"] u[of "VStr (ascii ''blocked'')"] fr p'
  show ?thesis by (simp add: tally_def)
qed (use assms in \<open>auto simp: tally_def pause_def resume_def stop_def\<close>)

lemma exec_tally:
  "exec e sched p = Some (effs, p')
     \<Longrightarrow> normal p' + int (tally e (VStr (ascii ''ok'')) p')
           = normal p + int (tally e (VStr (ascii ''ok'')) p)
         \<and> blocked p' + int (tally e (VStr (ascii ''blocked'')) p')
           = blocked p + int (tally e (VStr (ascii ''blocked'')) p)"
proof (induction sched arbitrary: p effs)
  case Nil
  then show ?case by simp
next
  case (Cons a sched)
  from Cons.prems obtain e1 p1 e2 where s1: "step e a p = Some (e1, p1)"
    and s2: "exec e sched p1 = Some (e2, p')"
    by (auto split: option.splits prod.splits)
  from step_tally[OF s1] Cons.IH[OF s2] show ?case by simp
qed

lemma start_tally:
  "tally e s (start p0 urls n m) = length (filter (\<lambda>u. snd (run_check e m u) = s) urls)"
  by (simp add: tally_def start_def Let_def foldl_snoc)

lemma all_done_tally:
  assumes "all_done p" "queue p = []"
  shows "tally e s p = 0"
  using assms by (auto simp: tally_def all_done_def list_all_iff)

lemma exec_mode: "exec e sched p = Some (effs, p') \<Longrightarrow> mode p' = mode p"
proof (induction sched arbitrary: p effs)
  case Nil
  then show ?case by simp
next
  case (Cons a sched)
  from Cons.prems obtain e1 p1 e2 where s1: "step e a p = Some (e1, p1)"
    and s2: "exec e sched p1 = Some (e2, p')"
    by (auto split: option.splits prod.splits)
  have "mode p1 = mode p"
  proof (cases a)
    case (Work i)
    from s1[unfolded Work] obtain w' q where
      ws: "worker_step e p (threads p ! i) = Some (e1, w', q)"
      and p1: "p1 = q\<lparr>threads := (threads p)[i := w']\<rparr>"
      by (rule step_WorkE)
    from worker_step_frame[OF ws] p1 show ?thesis by simp
  qed (use s1 in \<open>auto simp: pause_def resume_def stop_def\<close>)
  with Cons.IH[OF s2] show ?case by simp
qed

lemma complete_run_counters:
  assumes n: "1 \<le> n" and ns: "Stop \<notin> set sched"
    and ex: "exec e sched (start p0 urls n m) = Some (effs, p)" and ad: "all_done p"
  shows "counters p = expected_counters e m urls"
proof -
  from exec_run_inv[OF start_run_inv ex] have r: "run_inv n p" .
  from exec_unstopped[OF start_unstopped ns ex] have u: "unstopped_inv p" .
  from all_done_checked_total[OF r u n ad] have ck: "checked p = total p" and q: "queue p = []"
    by simp_all
  from exec_stats_effects[OF start_run_inv ex] have tot: "total p = int (length urls)"
    by (simp add: start_def Let_def)
  from exec_tally[OF ex] all_done_tally[OF ad q] start_tally
  have "normal p = normal (start p0 urls n m)
                   + int (length (filter (\<lambda>u. snd (run_check e m u) = VStr (ascii ''ok'')) urls))"
    and "blocked p = blocked (start p0 urls n m)
                   + int (length (filter (\<lambda>u. snd (run_check e m u) = VStr (ascii ''blocked'')) urls))"
    by simp_all
  then have "normal p = int (length (filter (\<lambda>u. snd (run_check e m u) = VStr (ascii ''ok'')) urls))"
    and "blocked p = int (length (filter (\<lambda>u. snd (run_check e m u) = VStr (ascii ''blocked'')) urls))"
    by (simp_all add: start_def Let_def)
  with ck tot show ?thesis by (simp add: counters_def expected_counters_def)
qed

text \<open>
  C8. Fix the task list, the provider and the outcome of the classification call for each
  task. Two runs with any worker counts of at least 1 (in particular 1 and 5), under any
  interleaving of the workers, in which \<open>stop\<close> is not called and all workers have exited,
  end with the same \<open>(total, checked, normal, blocked)\<close>: the number of tasks twice, the
  number of tasks classified ok, and the number classified blocked.
\<close>

theorem concurrency_independent_counters:
  assumes "1 \<le> n1" and "1 \<le> n2" and "all_done p1" and "all_done p2"
    and "exec e sched1 (start p1 urls n1 m) = Some (effs1, q1)"
    and "exec e sched2 (start p2 urls n2 m) = Some (effs2, q2)"
    and "Stop \<notin> set sched1" and "Stop \<notin> set sched2"
    and "all_done q1" and "all_done q2"
  shows "counters q1 = counters q2 \<and> counters q1 = expected_counters e m urls"
  using complete_run_counters[OF assms(1,7,5,9)] complete_run_counters[OF assms(2,8,6,10)]
  by simp


theorem concurrency_independent_counters_witness:
  "(1::int) \<le> 1 \<and> (1::int) \<le> 5 \<and> all_done init
   \<and> Stop \<notin> set (replicate 28 (Work 0))
   \<and> Stop \<notin> set (replicate 3 (Work 0) @ replicate 3 (Work 1) @ replicate 3 (Work 2)
         @ replicate 4 (Work 3) @ replicate 4 (Work 4) @ replicate 9 (Work 2)
         @ replicate 9 (Work 1) @ replicate 9 (Work 0))
   \<and> exec demo_env (replicate 28 (Work 0))
        (start init [ascii ''a.com'', ascii ''b.com'', ascii ''c.com''] 1 (ascii ''douyin'')) \<noteq> None
   \<and> exec demo_env (replicate 3 (Work 0) @ replicate 3 (Work 1) @ replicate 3 (Work 2)
         @ replicate 4 (Work 3) @ replicate 4 (Work 4) @ replicate 9 (Work 2)
         @ replicate 9 (Work 1) @ replicate 9 (Work 0))
        (start init [ascii ''a.com'', ascii ''b.com'', ascii ''c.com''] 5 (ascii ''douyin'')) \<noteq> None
   \<and> counters (snd (the (exec demo_env (replicate 28 (Work 0))
        (start init [ascii ''a.com'', ascii ''b.com'', ascii ''c.com''] 1 (ascii ''douyin'')))))
      = (3, 3, 1, 2)
   \<and> counters (snd (the (exec demo_env (replicate 3 (Work 0) @ replicate 3 (Work 1)
         @ replicate 3 (Work 2) @ replicate 4 (Work 3) @ replicate 4 (Work 4)
         @ replicate 9 (Work 2) @ replicate 9 (Work 1) @ replicate 9 (Work 0))
        (start init [ascii ''a.com'', ascii ''b.com'', ascii ''c.com''] 5 (ascii ''douyin'')))))
      = (3, 3, 1, 2)"
proof -
  let ?u = "[ascii ''a.com'', ascii ''b.com'', ascii ''c.com'']"
  let ?s1 = "replicate 28 (Work 0)"
  let ?s2 = "replicate 3 (Work 0) @ replicate 3 (Work 1) @ replicate 3 (Work 2)
         @ replicate 4 (Work 3) @ replicate 4 (Work 4) @ replicate 9 (Work 2)
         @ replicate 9 (Work 1) @ replicate 9 (Work 0)"
  let ?r1 = "exec demo_env ?s1 (start init ?u 1 (ascii ''douyin''))"
  let ?r2 = "exec demo_env ?s2 (start init ?u 5 (ascii ''douyin''))"
  have n: "(1::int) \<le> 1" "(1::int) \<le> 5" by simp_all
  have i: "all_done init" by (simp add: all_done_def init_def)
  have ns: "Stop \<notin> set ?s1" "Stop \<notin> set ?s2" by simp_all
  have r1: "?r1 = Some ([HttpGet (DOUYIN_CHECK_URL_TEMPLATE (ascii ''a.com'')) 10,
               ResultReady (ascii ''a.com'') (VStr (ascii ''ok'')),
               StatsUpdate 3 1 1 0,
               LogMessage (ascii ''a.com -> '' @ [0x6B63, 0x5E38]),
               HttpGet (DOUYIN_CHECK_URL_TEMPLATE (ascii ''b.com'')) 10,
               ResultReady (ascii ''b.com'') (VStr (ascii ''blocked'')),
               StatsUpdate 3 2 1 1,
               LogMessage (ascii ''b.com -> '' @ [0x62E6, 0x622A]),
               HttpGet (DOUYIN_CHECK_URL_TEMPLATE (ascii ''c.com'')) 10,
               ResultReady (ascii ''c.com'') (VStr (ascii ''blocked'')),
               StatsUpdate 3 3 1 2,
               LogMessage (ascii ''c.com -> '' @ [0x62E6, 0x622A]),
               Finished],
           \<lparr>queue = [], threads = [Done], stop_event = False, pause_event = False,
            total = 3, checked = 3, normal = 1, blocked = 2, active_threads = 0,
            mode = ascii ''douyin''\<rparr>)"
    by (simp add: run_defs demo_env_def replicate_numeral list_update_Cons_numeral
          DOUYIN_CHECK_URL_TEMPLATE_def DOUYIN_BLOCK_KEYWORDS_def sublist_code prefix_code ascii_def)
  have ne2: "?r2 \<noteq> None"
    by (simp add: run_defs demo_env_def replicate_numeral list_update_Cons_numeral
          DOUYIN_CHECK_URL_TEMPLATE_def DOUYIN_BLOCK_KEYWORDS_def sublist_code prefix_code ascii_def)
  have d2: "all_done (snd (the ?r2))"
    by (simp add: run_defs demo_env_def replicate_numeral list_update_Cons_numeral
          DOUYIN_CHECK_URL_TEMPLATE_def DOUYIN_BLOCK_KEYWORDS_def sublist_code prefix_code ascii_def)
  from r1 have ne1: "?r1 \<noteq> None" and d1: "all_done (snd (the ?r1))"
    and c1: "counters (snd (the ?r1)) = (3, 3, 1, 2)"
    by (simp_all add: all_done_def counters_def)
  from ne1 have ex1: "?r1 = Some (fst (the ?r1), snd (the ?r1))" by simp
  from ne2 have ex2: "?r2 = Some (fst (the ?r2), snd (the ?r2))" by simp
  from concurrency_independent_counters[OF n i i ex1 ex2 ns d1 d2] c1
  have c2: "counters (snd (the ?r2)) = (3, 3, 1, 2)" by simp
  from n i ns ne1 ne2 c1 c2 show ?thesis by (intro conjI)
qed


section \<open>Properties of the domain extraction\<close>

lemma ends_segment:
  "domain_classes r \<Longrightarrow> c' \<in> set (ends u r cur)
     \<Longrightarrow> \<exists>seg. snd cur = seg @ snd c' \<and> (\<forall>x \<in> set seg. domain_char x)"
proof (induction u r cur arbitrary: c' rule: ends.induct)
  case (1 u P cur)
  show ?case
  proof (cases "snd cur")
    case Nil
    with "1.prems"(2) show ?thesis by simp
  next
    case (Cons c cs)
    with "1.prems"(2) have pc: "P c" and c': "c' = (Some c, cs)"
      by (simp_all split: if_splits)
    from pc "1.prems"(1) have "domain_char c" by simp
    with Cons c' have "snd cur = [c] @ snd c' \<and> (\<forall>x \<in> set [c]. domain_char x)" by simp
    then show ?thesis by blast
  qed
next
  case (2 u cur)
  from "2.prems"(2) have "c' = cur" by (simp split: if_splits)
  then show ?case by simp
next
  case (3 u r1 r2 cur)
  from "3.prems" obtain c1 where c1: "c1 \<in> set (ends u r1 cur)" and c': "c' \<in> set (ends u r2 c1)"
    by auto
  from "3.prems"(1) have d1: "domain_classes r1" and d2: "domain_classes r2" by simp_all
  from "3.IH"(1)[OF d1 c1] obtain s1 where s1: "snd cur = s1 @ snd c1" "\<forall>x \<in> set s1. domain_char x"
    by blast
  from "3.IH"(2)[OF c1 d2 c'] obtain s2 where s2: "snd c1 = s2 @ snd c'" "\<forall>x \<in> set s2. domain_char x"
    by blast
  from s1 s2 have "snd cur = (s1 @ s2) @ snd c'" "\<forall>x \<in> set (s1 @ s2). domain_char x" by auto
  then show ?case by blast
next
  case (4 u r cur)
  from "4.prems"(1) have d: "domain_classes r" by simp
  show ?case
  proof (cases "c' = cur")
    case True
    then show ?thesis by simp
  next
    case False
    from "4.prems"(2) have "c' \<in> set (concat (map (\<lambda>c'. if length (snd c') < length (snd cur)
                  then ends u (Star r) c' else [c']) (ends u r cur)) @ [cur])"
      by (simp only: ends.simps(4)[of u r cur])
    with False have "c' \<in> set (concat (map (\<lambda>c'. if length (snd c') < length (snd cur)
                  then ends u (Star r) c' else [c']) (ends u r cur)))"
      by simp
    then obtain c1 where c1: "c1 \<in> set (ends u r cur)"
      and c': "c' \<in> set (if length (snd c1) < length (snd cur) then ends u (Star r) c1 else [c1])"
      unfolding set_concat set_map by blast
    from "4.IH"(1)[OF d c1] obtain s1 where s1: "snd cur = s1 @ snd c1" "\<forall>x \<in> set s1. domain_char x"
      by blast
    show ?thesis
    proof (cases "length (snd c1) < length (snd cur)")
      case True
      with c' have "c' \<in> set (ends u (Star r) c1)" by simp
      from "4.IH"(2)[OF c1 True "4.prems"(1) this] obtain s2
        where s2: "snd c1 = s2 @ snd c'" "\<forall>x \<in> set s2. domain_char x"
        by blast
      from s1 s2 have "snd cur = (s1 @ s2) @ snd c'" "\<forall>x \<in> set (s1 @ s2). domain_char x" by auto
      then show ?thesis by blast
    next
      case False
      with c' have "c' = c1" by simp
      with s1 show ?thesis by blast
    qed
  qed
qed

lemma findall_chars:
  "domain_classes r \<Longrightarrow> m \<in> set (findall u r cur) \<Longrightarrow> \<forall>x \<in> set m. domain_char x"
proof (induction u r cur rule: findall.induct)
  case (1 u r cur)
  note fa = findall.simps[of u r cur]
  show ?case
  proof (cases "ends u r cur")
    case Nil
    show ?thesis
    proof (cases "snd cur")
      case Nil': Nil
      from "1.prems"(2) Nil Nil' show ?thesis by (simp add: fa)
    next
      case (Cons c cs)
      from "1.prems"(2) Nil Cons have "m \<in> set (findall u r (Some c, cs))" by (simp add: fa)
      from "1.IH"(1)[OF Nil Cons "1.prems"(1) this] show ?thesis .
    qed
  next
    case (Cons c' alts)
    show ?thesis
    proof (cases "length (snd c') < length (snd cur)")
      case True
      from Cons have "c' \<in> set (ends u r cur)" by simp
      from ends_segment[OF "1.prems"(1) this] obtain seg
        where seg: "snd cur = seg @ snd c'" "\<forall>x \<in> set seg. domain_char x" by blast
      then have tk: "take (length (snd cur) - length (snd c')) (snd cur) = seg" by simp
      from "1.prems"(2) Cons True
      have "m = seg \<or> m \<in> set (findall u r c')" using tk by (simp add: fa)
      with seg "1.IH"(2)[OF Cons True "1.prems"(1)] show ?thesis by blast
    next
      case False
      show ?thesis
      proof (cases "snd cur")
        case Nil
        from "1.prems"(2) Cons False Nil show ?thesis by (simp add: fa)
      next
        case Cons': (Cons c cs)
        from "1.prems"(2) Cons False Cons' have "m \<in> set (findall u r (Some c, cs))"
          by (simp add: fa)
        from "1.IH"(3)[OF Cons False Cons' "1.prems"(1) this] show ?thesis .
      qed
    qed
  qed
qed


lemma domain_classes_DOMAIN_REGEX: "domain_classes DOMAIN_REGEX"
  by (simp add: DOMAIN_REGEX_def repeat1_def repeat2_def domain_char_def ascii_alpha_def
        ascii_alnum_def)

lemma py_lower_domain:
  assumes "\<forall>x \<in> set m. domain_char x"
  shows "py_lower u m = map (\<lambda>c. if 65 \<le> c \<and> c \<le> 90 then c + 32 else c) m"
    and "\<forall>c \<in> set (py_lower u m). lower_domain_char c"
proof -
  from assms have "list_all (\<lambda>c. c < 128) m"
    by (auto simp: list_all_iff domain_char_def ascii_alnum_def)
  then show eq: "py_lower u m = map (\<lambda>c. if 65 \<le> c \<and> c \<le> 90 then c + 32 else c) m"
    by (simp add: py_lower_def)
  from assms show "\<forall>c \<in> set (py_lower u m). lower_domain_char c"
    unfolding eq by (auto simp: domain_char_def ascii_alnum_def lower_domain_char_def)
qed

lemma set_first_occurrences [simp]: "set (first_occurrences xs) = set xs"
  by (induction xs rule: first_occurrences.induct) auto

lemma distinct_first_occurrences: "distinct (first_occurrences xs)"
  by (induction xs rule: first_occurrences.induct) auto

lemma removeAll_filter_not_in:
  "removeAll d (filter (\<lambda>x. x \<notin> seen) xs) = filter (\<lambda>x. x \<notin> insert d seen) xs"
  by (induction xs) auto

lemma extract_loop_eq:
  "extract_loop u ms seen domains
     = domains @ first_occurrences (filter (\<lambda>d. d \<notin> seen) (map (py_lower u) ms))"
proof (induction ms arbitrary: seen domains)
  case Nil
  then show ?case by simp
next
  case (Cons m ms)
  show ?case
  proof (cases "py_lower u m \<in> seen")
    case True
    with Cons.IH[of seen domains] show ?thesis by simp
  next
    case False
    with Cons.IH[of "insert (py_lower u m) seen" "domains @ [py_lower u m]"]
    show ?thesis by (simp add: Let_def removeAll_filter_not_in)
  qed
qed

text \<open>
  C10. For every input text (and whatever the Unicode tables say about non-ASCII
  characters), \<open>extract_domains_from_text\<close> returns the matches of \<open>DOMAIN_REGEX\<close>, each
  lower-cased, with duplicates removed, each domain kept at its first occurrence, in
  first-occurrence order. The result has no duplicates; every match is pure ASCII, so
  lower-casing it maps A to Z to a to z; and every character of every returned domain is
  one of a to z, 0 to 9, hyphen and dot, hence never an upper-case letter.
\<close>

theorem extract_domains_lowercase_dedup:
  "extract_domains_from_text u text
     = first_occurrences (map (py_lower u) (findall u DOMAIN_REGEX (None, text)))
   \<and> distinct (extract_domains_from_text u text)
   \<and> (\<forall>m \<in> set (findall u DOMAIN_REGEX (None, text)).
         py_lower u m = map (\<lambda>c. if 65 \<le> c \<and> c \<le> 90 then c + 32 else c) m)
   \<and> (\<forall>d \<in> set (extract_domains_from_text u text). \<forall>c \<in> set d.
         lower_domain_char c \<and> \<not> (65 \<le> c \<and> c \<le> 90))"
proof -
  let ?ms = "findall u DOMAIN_REGEX (None, text)"
  have eq: "extract_domains_from_text u text = first_occurrences (map (py_lower u) ?ms)"
    by (simp add: extract_domains_from_text_def extract_loop_eq)
  have ch: "\<forall>m \<in> set ?ms. \<forall>x \<in> set m. domain_char x"
    using findall_chars[OF domain_classes_DOMAIN_REGEX] by blast
  have lo: "\<forall>m \<in> set ?ms. py_lower u m = map (\<lambda>c. if 65 \<le> c \<and> c \<le> 90 then c + 32 else c) m"
  proof
    fix m assume "m \<in> set ?ms"
    with ch have "\<forall>x \<in> set m. domain_char x" by blast
    from py_lower_domain(1)[OF this]
    show "py_lower u m = map (\<lambda>c. if 65 \<le> c \<and> c \<le> 90 then c + 32 else c) m" .
  qed
  have al: "\<forall>d \<in> set (extract_domains_from_text u text). \<forall>c \<in> set d.
         lower_domain_char c \<and> \<not> (65 \<le> c \<and> c \<le> 90)"
  proof (intro ballI)
    fix d c assume d: "d \<in> set (extract_domains_from_text u text)" and c: "c \<in> set d"
    from d have "d \<in> set (map (py_lower u) ?ms)" unfolding eq by simp
    then obtain m where m: "m \<in> set ?ms" and dm: "d = py_lower u m" by auto
    from ch m have "\<forall>x \<in> set m. domain_char x" by blast
    from py_lower_domain(2)[OF this, of u] dm c have "lower_domain_char c" by blast
    then show "lower_domain_char c \<and> \<not> (65 \<le> c \<and> c \<le> 90)"
      by (auto simp: lower_domain_char_def)
  qed
  have di: "distinct (extract_domains_from_text u text)"
    unfolding eq by (rule distinct_first_occurrences)
  from eq di lo al show ?thesis by (intro conjI)
qed

lemma ends_Star_Nil:
  "ends u (Star r) (p, []) =
     concat (map (\<lambda>c'. if length (snd c') < length (snd (p, [] :: str))
                        then ends u (Star r) c' else [c'])
                 (ends u r (p, [])))
     @ [(p, [])]"
  by (rule ends.simps(4))

lemma ends_Star_Cons:
  "ends u (Star r) (p, c # cs) =
     concat (map (\<lambda>c'. if length (snd c') < length (snd (p, c # cs))
                        then ends u (Star r) c' else [c'])
                 (ends u r (p, c # cs)))
     @ [(p, c # cs)]"
  by (rule ends.simps(4))

lemma findall_Nil:
  "findall u r (p, []) =
     (case ends u r (p, []) of
        c' # alternatives \<Rightarrow>
          if length (snd c') < length (snd (p, [] :: str))
          then take (length (snd (p, [] :: str)) - length (snd c')) (snd (p, [] :: str)) # findall u r c'
          else []
      | [] \<Rightarrow> [])"
  by (subst findall.simps) (simp split: list.splits)

lemma findall_Cons:
  "findall u r (p, c # cs) =
     (case ends u r (p, c # cs) of
        c' # alternatives \<Rightarrow>
          if length (snd c') < length (snd (p, c # cs))
          then take (length (snd (p, c # cs)) - length (snd c')) (snd (p, c # cs)) # findall u r c'
          else findall u r (Some c, cs)
      | [] \<Rightarrow> findall u r (Some c, cs))"
  by (subst findall.simps) (simp split: list.splits)

lemmas regex_eval = ends_Star_Nil ends_Star_Cons findall_Nil findall_Cons DOMAIN_REGEX_def
  repeat1_def repeat2_def at_boundary_def is_word_def ascii_alnum_def ascii_alpha_def
  py_lower_def extract_domains_from_text_def ascii_def Let_def

theorem extract_domains_lowercase_dedup_witness:
  "extract_domains_from_text \<lparr>uni_isalnum = (\<lambda>c. False), uni_lower = (\<lambda>s. s)\<rparr>
       (ascii ''A.Com a.com b.org'')
     = [ascii ''a.com'', ascii ''b.org'']
   \<and> findall \<lparr>uni_isalnum = (\<lambda>c. False), uni_lower = (\<lambda>s. s)\<rparr> DOMAIN_REGEX
       (None, ascii ''A.Com a.com b.org'')
     = [ascii ''A.Com'', ascii ''a.com'', ascii ''b.org'']
   \<and> distinct (extract_domains_from_text \<lparr>uni_isalnum = (\<lambda>c. False), uni_lower = (\<lambda>s. s)\<rparr>
       (ascii ''A.Com a.com b.org''))
   \<and> lower_domain_char (of_char CHR ''a'')"
proof -
  let ?u = "\<lparr>uni_isalnum = (\<lambda>c. False), uni_lower = (\<lambda>s. s)\<rparr>"
  let ?t = "ascii ''A.Com a.com b.org''"
  have f: "findall ?u DOMAIN_REGEX (None, ?t) = [ascii ''A.Com'', ascii ''a.com'', ascii ''b.org'']"
    by (simp add: regex_eval)
  have x: "extract_domains_from_text ?u ?t = [ascii ''a.com'', ascii ''b.org'']"
    by (simp add: regex_eval)
  then have mem: "ascii ''a.com'' \<in> set (extract_domains_from_text ?u ?t)" by simp
  note t = extract_domains_lowercase_dedup[of ?u ?t]
  from t have d: "distinct (extract_domains_from_text ?u ?t)" by blast
  from t mem have "\<forall>c \<in> set (ascii ''a.com''). lower_domain_char c \<and> \<not> (65 \<le> c \<and> c \<le> 90)"
    by blast
  moreover have "of_char CHR ''a'' \<in> set (ascii ''a.com'')" by (simp add: ascii_def)
  ultimately have c: "lower_domain_char (of_char CHR ''a'')" by blast
  from x f d c show ?thesis by (intro conjI)
qed


end
